theory Spec2Isabelle
  imports Main "HOL-Library.AList"
begin

section \<open>bin/refunds.js: the keep resolution and verification pipeline\<close>

text \<open>
  A shallow embedding of \<^verbatim>\<open>src/bin/refunds.js\<close>. JavaScript strings are
  \<open>string\<close>; an exception is represented by the text that the template literal
  \<^verbatim>\<open>${e}\<close> yields for it, so \<^verbatim>\<open>new Error(m)\<close> is \<open>''Error: '' @ m\<close>;
  a function that can throw (or a promise that can reject) returns \<open>exn + 'a\<close>, with
  \<open>Inl\<close> the exception. An exception that is thrown where nothing catches it, in a
  listener called from the event loop, kills the process: a computation that can end so
  returns an \<open>outcome\<close>, \<open>Died\<close> with the exception or \<open>Alive\<close> with its result and
  the process going on.
\<close>

type_synonym exn = string

datatype 'a outcome = Died exn | Alive 'a

definition newError :: "string \<Rightarrow> exn" where
  "newError m = ''Error: '' @ m"

subsection \<open>Strings\<close>

definition isUpper :: "char \<Rightarrow> bool" where
  "isUpper c = (let n = (of_char c :: nat) in 65 \<le> n \<and> n \<le> 90)"

definition isAlnum :: "char \<Rightarrow> bool" where
  "isAlnum c = (let n = (of_char c :: nat) in
     (48 \<le> n \<and> n \<le> 57) \<or> (65 \<le> n \<and> n \<le> 90) \<or> (97 \<le> n \<and> n \<le> 122))"

text \<open>
  \<^verbatim>\<open>String.prototype.toLowerCase\<close> on the ASCII range, which is where chain addresses
  live: an upper-case letter \<open>A..Z\<close> (codes 65..90, bit 5 clear) becomes the letter 32
  above it (bit 5 set); every other character is kept.
\<close>

definition lowerChar :: "char \<Rightarrow> char" where
  "lowerChar c = (if isUpper c
     then Char (digit0 c) (digit1 c) (digit2 c) (digit3 c) (digit4 c) True (digit6 c) (digit7 c)
     else c)"

definition toLowerCase :: "string \<Rightarrow> string" where
  "toLowerCase s = map lowerChar s"

text \<open>
  \<^verbatim>\<open>String.prototype.split\<close> at a character: the pieces between its occurrences, one
  more than there are occurrences.
\<close>

fun splitOn :: "char \<Rightarrow> string \<Rightarrow> string list" where
  "splitOn c [] = [[]]"
| "splitOn c (x # xs) =
     (if x = c then [] # splitOn c xs
      else (case splitOn c xs of
              [] \<Rightarrow> [[x]]
            | piece # pieces \<Rightarrow> (x # piece) # pieces))"

text \<open>
  \<^verbatim>\<open>String.prototype.trim\<close> on the ASCII range: tab, line feed, vertical tab, form
  feed, carriage return and space are taken off both ends.
\<close>

definition isSpace :: "char \<Rightarrow> bool" where
  "isSpace c = (let n = (of_char c :: nat) in (9 \<le> n \<and> n \<le> 13) \<or> n = 32)"

definition trim :: "string \<Rightarrow> string" where
  "trim s = rev (dropWhile isSpace (rev (dropWhile isSpace s)))"

text \<open>\<^verbatim>\<open>Array.prototype.join\<close> on an array of strings.\<close>

fun joinWith :: "string \<Rightarrow> string list \<Rightarrow> string" where
  "joinWith sep [] = []"
| "joinWith sep [x] = x"
| "joinWith sep (x # y # ys) = x @ sep @ joinWith sep (y # ys)"

subsection \<open>The two destination patterns of \<^verbatim>\<open>readBeneficiary\<close>\<close>

text \<open>
  \<^verbatim>\<open>/(?:1|3|bc1)[A-Za-z0-9]{26,33}/\<close> tried at the start of \<open>s\<close>. The three
  alternatives of the prefix exclude each other on the first character, and the greedy
  body is the last item of the pattern, so the match, if any, takes the longest body of at
  most 33 characters.
\<close>

definition addressPrefix :: "string \<Rightarrow> (string \<times> string) option" where
  "addressPrefix s = (case s of
       [] \<Rightarrow> None
     | c # cs \<Rightarrow>
         if c = CHR ''1'' \<or> c = CHR ''3'' then Some ([c], cs)
         else if take 3 s = ''bc1'' then Some (''bc1'', drop 3 s)
         else None)"

definition matchAddressAt :: "string \<Rightarrow> string option" where
  "matchAddressAt s = (case addressPrefix s of
       None \<Rightarrow> None
     | Some (p, rest) \<Rightarrow>
         (let body = take 33 (takeWhile isAlnum rest)
          in if 26 \<le> length body then Some (p @ body) else None))"

text \<open>\<^verbatim>\<open>/[xyz]pub[a-zA-Z0-9]*/\<close> tried at the start of \<open>s\<close>.\<close>

definition matchPubAt :: "string \<Rightarrow> string option" where
  "matchPubAt s = (case s of
       [] \<Rightarrow> None
     | c # cs \<Rightarrow>
         if (c = CHR ''x'' \<or> c = CHR ''y'' \<or> c = CHR ''z'') \<and> take 3 cs = ''pub''
         then Some (c # ''pub'' @ takeWhile isAlnum (drop 3 cs))
         else None)"

text \<open>
  \<^verbatim>\<open>[...msg.matchAll(re)].map(_ => _[0])\<close> for a global pattern \<open>re\<close> whose matches
  are never empty: the leftmost match is taken, and the search goes on behind it. A match
  \<open>m\<close> found at \<open>c # cs\<close> starts with \<open>c\<close>, so the text behind it is
  \<open>drop (length m - 1) cs\<close>.
\<close>

fun matchAll :: "(string \<Rightarrow> string option) \<Rightarrow> string \<Rightarrow> string list" where
  "matchAll re [] = []"
| "matchAll re (c # cs) = (case re (c # cs) of
       None \<Rightarrow> matchAll re cs
     | Some m \<Rightarrow> m # matchAll re (drop (length m - 1) cs))"

text \<open>
  Lines 374 to 401 of \<^verbatim>\<open>readBeneficiary\<close>: the destination named by a verified
  message, without the write to \<^verbatim>\<open>operatorBeneficiaries\<close> (which
  \<open>readBeneficiary\<close> below does). The error raised for too many extended keys prints
  \<^verbatim>\<open>addresses\<close>, as the source does.
\<close>

definition extractDestination :: "string \<Rightarrow> string \<Rightarrow> exn + string" where
  "extractDestination operatorAddress msg =
     (let addresses = matchAll matchAddressAt msg in
      if length addresses > 1 then
        Inl (newError (''Beneficiary message for '' @ operatorAddress @
                       '' includes too many addresses: '' @ joinWith '','' addresses))
      else if length addresses = 1 then Inr (addresses ! 0)
      else
        (let pubs = matchAll matchPubAt msg in
         if length pubs > 1 then
           Inl (newError (''Beneficiary message for '' @ operatorAddress @
                          '' includes too many addresses: '' @ joinWith '','' addresses))
         else if length pubs = 1 then Inr (pubs ! 0)
         else
           Inl (newError (''Could not find a valid BTC address or *pub in signed message for '' @
                          operatorAddress @ '': '' @ msg))))"

subsection \<open>Values, rows and promises\<close>

text \<open>
  The values a row holds are strings, numbers and \<^verbatim>\<open>null\<close>. A row (a JavaScript object with string
  keys, none of them an array index) keeps its keys in insertion order: writing a key
  that exists replaces the value in place, writing a new key appends it. That is
  \<open>AList.update\<close>. Reading a key that is absent gives \<^verbatim>\<open>undefined\<close>, here
  \<open>None\<close>.
\<close>

datatype jsval = JStr string | JNum int | JNull

type_synonym row = "(string \<times> jsval) list"

definition truthy :: "jsval option \<Rightarrow> bool" where
  "truthy v = (case v of
       None \<Rightarrow> False
     | Some (JStr s) \<Rightarrow> s \<noteq> []
     | Some (JNum n) \<Rightarrow> n \<noteq> 0
     | Some JNull \<Rightarrow> False)"

text \<open>Truthiness of a string that may be undefined: it is there and not empty.\<close>

definition truthyStr :: "string option \<Rightarrow> bool" where
  "truthyStr v = (case v of None \<Rightarrow> False | Some x \<Rightarrow> x \<noteq> [])"

text \<open>A string or \<^verbatim>\<open>null\<close> as a value.\<close>

definition nullable :: "string option \<Rightarrow> jsval" where
  "nullable v = (case v of None \<Rightarrow> JNull | Some x \<Rightarrow> JStr x)"

text \<open>\<^verbatim>\<open>{ ...row, ...obj }\<close>: the keys of \<open>obj\<close> are written into \<open>row\<close> in order.\<close>

definition spread :: "row \<Rightarrow> row \<Rightarrow> row" where
  "spread r obj = fold (\<lambda>(k, v). AList.update k v) obj r"

text \<open>Any object is truthy, also the empty one.\<close>

definition truthyObject :: "row \<Rightarrow> bool" where
  "truthyObject obj = True"

function showNat :: "nat \<Rightarrow> string" where
  "showNat n = (if n < 10 then [''0123456789'' ! n]
                else showNat (n div 10) @ [''0123456789'' ! (n mod 10)])"
  by pat_completeness auto
termination
  by (relation "measure id") auto

definition showInt :: "int \<Rightarrow> string" where
  "showInt i = (if i < 0 then ''-'' @ showNat (nat (- i)) else showNat (nat i))"

text \<open>A value in a string context (\<^verbatim>\<open>"" + v\<close>); numbers are integers here.\<close>

definition toString :: "jsval option \<Rightarrow> string" where
  "toString v = (case v of
       None \<Rightarrow> ''undefined''
     | Some (JStr s) \<Rightarrow> s
     | Some (JNum n) \<Rightarrow> showInt n
     | Some JNull \<Rightarrow> ''null'')"

text \<open>
  A promise is represented by the way it settles: \<open>Inl e\<close> when it rejects with \<open>e\<close>,
  \<open>Inr v\<close> when it fulfils with \<open>v\<close>. Awaiting it throws \<open>e\<close> or yields \<open>v\<close>. As an
  object, a promise is truthy however it settles.
\<close>

type_synonym 'a promise = "exn + 'a"

text \<open>\<^verbatim>\<open>a || b\<close> on an optional string: \<open>a\<close> unless it is undefined or empty.\<close>

definition orElse :: "string option \<Rightarrow> string \<Rightarrow> string" where
  "orElse a b = (if truthyStr a then (case a of Some x \<Rightarrow> x | None \<Rightarrow> b) else b)"

subsection \<open>Process state and collaborators\<close>

text \<open>
  The module-level variables that the pipeline reads and writes. The two query logs are
  not in the source: they record, in order, the signer of every
  \<^verbatim>\<open>tokenStaking().methods.beneficiaryOf(..).call()\<close> and of every
  \<^verbatim>\<open>lookupOwner(..)\<close> that is issued, so that queries can be counted.
  \<^verbatim>\<open>baseKeepContract\<close> and \<^verbatim>\<open>tokenStakingContract\<close> only memoise the construction
  of a contract handle and are left out.
\<close>

record delegationInfo =
  beneficiary :: "string promise option"
  owner :: "string promise option"

record state =
  startingBlock :: "nat option"
  delegationInfoCache :: "string \<rightharpoonup> delegationInfo"
  operatorBeneficiaries :: "string \<rightharpoonup> string"
  beneficiaryQueries :: "string list"
  ownerQueries :: "string list"

definition initialState :: state where
  "initialState = \<lparr> startingBlock = None, delegationInfoCache = Map.empty,
     operatorBeneficiaries = Map.empty, beneficiaryQueries = [], ownerQueries = [] \<rparr>"

text \<open>The parsed artifact file, typed as the source annotates it; a field may be absent.\<close>

record attestation =
  msg :: "string option"
  sig :: "string option"
  address :: "string option"

datatype fileKind = File | Directory | OtherKind

text \<open>
  A child process as \<^verbatim>\<open>signDigest\<close> sees it: what it wrote to its standard output
  and to its standard error, and the event that ends it, \<^verbatim>\<open>exit\<close> with a code and a
  signal (either may be \<^verbatim>\<open>null\<close>) or \<^verbatim>\<open>error\<close> with the error.
\<close>

datatype childEnd = ExitEvent "int option" "string option" | ErrorEvent exn

record child =
  childStdout :: string
  childStderr :: string
  childEnded :: childEnd

text \<open>
  The command line options and the collaborators that the source imports: the file
  system, the process spawner, the chain client, the Bitcoin helpers and the owner
  lookup. Each is a parameter: what it answers during the run.
\<close>

record env =
  keepEcdsaClientPath :: "string option"
  keyShareDirectory :: "string option"
  beneficiaryDirectory :: "string option"
  fs_stat :: "string \<Rightarrow> exn + fileKind"
  fs_readdir :: "string \<Rightarrow> exn + string list"
  fs_readFile :: "string \<Rightarrow> exn + string"
  spawn :: "string \<Rightarrow> string list \<Rightarrow> child"
  web3_getBlockNumber :: "nat promise"
  keep_isClosed :: "string \<Rightarrow> nat \<Rightarrow> bool promise"
  keep_isTerminated :: "string \<Rightarrow> nat \<Rightarrow> bool promise"
  keep_getPublicKey :: "string \<Rightarrow> string promise"
  keep_getMembers :: "string \<Rightarrow> (string \<times> string \<times> string) promise"
  publicKeyToP2WPKHAddress :: "string \<Rightarrow> exn + string"
  getBalance :: "string \<Rightarrow> int promise"
  JSON_parse :: "string \<Rightarrow> exn + attestation"
  accounts_recover :: "string \<Rightarrow> string \<Rightarrow> exn + string"
  tokenStaking_beneficiaryOf :: "string \<Rightarrow> string promise"
  contractsFromWeb3 :: "unit promise"
  lookupOwner :: "string \<Rightarrow> string promise"

subsection \<open>Key shares, keep status and balance\<close>

text \<open>\<^verbatim>\<open>${v}\<close> for a code or a signal that may be \<^verbatim>\<open>null\<close>.\<close>

definition showCode :: "int option \<Rightarrow> string" where
  "showCode code = (case code of None \<Rightarrow> ''null'' | Some n \<Rightarrow> showInt n)"

definition showSignal :: "string option \<Rightarrow> string" where
  "showSignal signal = (case signal of None \<Rightarrow> ''null'' | Some name \<Rightarrow> name)"

text \<open>
  \<^verbatim>\<open>signDigest\<close>: the promise is settled by the listeners of the child. On
  \<^verbatim>\<open>exit\<close> with code 0 the output is split at the tabs into the public key and the
  signature. When the output has no tab, \<^verbatim>\<open>signature\<close> is \<^verbatim>\<open>undefined\<close> and
  \<^verbatim>\<open>signature.trim()\<close> throws a \<^verbatim>\<open>TypeError\<close> inside the listener, outside the
  promise and outside every \<^verbatim>\<open>try\<close>: the process dies (the wording of the error is
  the engine's). On \<^verbatim>\<open>error\<close> the promise rejects with the error output when there is
  some, with the error otherwise. The result is the pair of the signature and the public
  key.
\<close>

definition signDigest :: "env \<Rightarrow> string \<Rightarrow> string \<Rightarrow> (string \<times> string) promise outcome" where
  "signDigest e keepAddress digest =
     (let keepDirectory = orElse (keyShareDirectory e) ''key-shares'' @ ''/'' @ keepAddress;
          process = spawn e (orElse (keepEcdsaClientPath e) ''keep-ecdsa'')
                      [''signing'', ''sign-digest'', digest, keepDirectory]
      in case childEnded process of
           ExitEvent code signal \<Rightarrow>
             if code = Some 0 then
               (case splitOn (CHR 0x09) (childStdout process) of
                  publicKey # signature # _ \<Rightarrow> Alive (Inr (trim signature, trim publicKey))
                | _ \<Rightarrow> Died ''TypeError: Cannot read properties of undefined (reading trim)'')
             else
               Alive (Inl (newError (''Process exited abnormally with signal '' @ showSignal signal @
                                     '' and code '' @ showCode code @ childStderr process)))
         | ErrorEvent error \<Rightarrow>
             Alive (Inl (if childStderr process \<noteq> [] then childStderr process else error)))"

text \<open>
  \<^verbatim>\<open>keySharesReady\<close>: whatever is thrown or rejected inside its \<^verbatim>\<open>try\<close> gives
  \<^verbatim>\<open>false\<close>; the death of the process is not an exception of this function.
\<close>

definition keySharesReady :: "env \<Rightarrow> string \<Rightarrow> bool outcome" where
  "keySharesReady e keepAddress =
     (let keepDirectory = orElse (keyShareDirectory e) ''key-shares'' @ ''/'' @ keepAddress in
      case fs_stat e keepDirectory of
        Inl _ \<Rightarrow> Alive False
      | Inr kind \<Rightarrow>
          if kind \<noteq> Directory then Alive False
          else (case fs_readdir e keepDirectory of
              Inl _ \<Rightarrow> Alive False
            | Inr names \<Rightarrow>
                if length names \<noteq> 3 then Alive False
                else (case signDigest e keepAddress ''deadbeef'' of
                    Died x \<Rightarrow> Died x
                  | Alive (Inl _) \<Rightarrow> Alive False
                  | Alive (Inr _) \<Rightarrow> Alive True)))"

text \<open>
  \<^verbatim>\<open>startingBlock = startingBlock || (await web3.eth.getBlockNumber())\<close>: a stored
  block number is reused unless it is absent or 0.
\<close>

definition referenceBlock :: "env \<Rightarrow> state \<Rightarrow> (exn + nat) \<times> state" where
  "referenceBlock e s =
     (case startingBlock s of
        Some b \<Rightarrow>
          if b \<noteq> 0 then (Inr b, s)
          else (case web3_getBlockNumber e of
              Inl x \<Rightarrow> (Inl x, s)
            | Inr n \<Rightarrow> (Inr n, s\<lparr>startingBlock := Some n\<rparr>))
      | None \<Rightarrow>
          (case web3_getBlockNumber e of
              Inl x \<Rightarrow> (Inl x, s)
            | Inr n \<Rightarrow> (Inr n, s\<lparr>startingBlock := Some n\<rparr>)))"

definition keepStatusCompleted :: "env \<Rightarrow> string \<Rightarrow> state \<Rightarrow> (exn + string option) \<times> state" where
  "keepStatusCompleted e keepAddress s =
     (case referenceBlock e s of
        (Inl x, s') \<Rightarrow> (Inl x, s')
      | (Inr block, s') \<Rightarrow>
          (case keep_isClosed e keepAddress block of
             Inl x \<Rightarrow> (Inl x, s')
           | Inr closed \<Rightarrow>
               if closed then (Inr (Some ''closed''), s')
               else (case keep_isTerminated e keepAddress block of
                   Inl x \<Rightarrow> (Inl x, s')
                 | Inr terminated \<Rightarrow>
                     if terminated then (Inr (Some ''terminated''), s')
                     else (Inr None, s'))))"

text \<open>\<^verbatim>\<open>pubkey.replace(/0x/, "")\<close>: the first occurrence of \<open>0x\<close> is removed.\<close>

fun remove0x :: "string \<Rightarrow> string" where
  "remove0x (a # b # cs) =
     (if a = CHR ''0'' \<and> b = CHR ''x'' then cs else a # remove0x (b # cs))"
| "remove0x cs = cs"

definition keepHoldsBtc :: "env \<Rightarrow> string \<Rightarrow> exn + (string \<times> int)" where
  "keepHoldsBtc e keepAddress =
     (case keep_getPublicKey e keepAddress of
        Inl x \<Rightarrow> Inl x
      | Inr pubkey \<Rightarrow>
          (case publicKeyToP2WPKHAddress e (remove0x pubkey) of
             Inl x \<Rightarrow> Inl x
           | Inr bitcoinAddress \<Rightarrow>
               (case getBalance e bitcoinAddress of
                  Inl x \<Rightarrow> Inl x
                | Inr btcBalance \<Rightarrow> Inr (bitcoinAddress, btcBalance))))"

subsection \<open>The delegation cache\<close>

text \<open>
  \<^verbatim>\<open>beneficiaryOf\<close> is not an \<^verbatim>\<open>async\<close> function: it checks the cache, issues the
  call, stores the promise that \<^verbatim>\<open>call()\<close> returns and returns it, all in one step.
  What is cached is the promise, not the address it may fulfil with.
\<close>

definition cachedBeneficiary :: "state \<Rightarrow> string \<Rightarrow> string promise option" where
  "cachedBeneficiary s operatorAddress =
     (case delegationInfoCache s operatorAddress of
        None \<Rightarrow> None
      | Some d \<Rightarrow> beneficiary d)"

definition cachedOwner :: "state \<Rightarrow> string \<Rightarrow> string promise option" where
  "cachedOwner s operatorAddress =
     (case delegationInfoCache s operatorAddress of
        None \<Rightarrow> None
      | Some d \<Rightarrow> owner d)"

text \<open>\<^verbatim>\<open>delegationInfoCache[operatorAddress] || {}\<close>\<close>

definition cacheEntry :: "state \<Rightarrow> string \<Rightarrow> delegationInfo" where
  "cacheEntry s operatorAddress =
     (case delegationInfoCache s operatorAddress of
        None \<Rightarrow> \<lparr> beneficiary = None, owner = None \<rparr>
      | Some d \<Rightarrow> d)"

definition beneficiaryOf :: "env \<Rightarrow> string \<Rightarrow> state \<Rightarrow> string promise \<times> state" where
  "beneficiaryOf e operatorAddress s =
     (case cachedBeneficiary s operatorAddress of
        Some p \<Rightarrow> (p, s)
      | None \<Rightarrow>
          (let p = tokenStaking_beneficiaryOf e operatorAddress in
           (p, s\<lparr> delegationInfoCache := (delegationInfoCache s)
                     (operatorAddress \<mapsto> (cacheEntry s operatorAddress)\<lparr>beneficiary := Some p\<rparr>),
                   beneficiaryQueries := beneficiaryQueries s @ [operatorAddress] \<rparr>)))"

text \<open>
  \<^verbatim>\<open>deepOwnerOf\<close> is \<^verbatim>\<open>async\<close> and suspends once, at
  \<^verbatim>\<open>await contractsFromWeb3(web3)\<close>, between its cache check and its cache write.
  \<open>deepOwnerOf_resume\<close> is the part that runs after the suspension: the await throws or
  yields the contracts, then \<^verbatim>\<open>lookupOwner\<close> is called and its promise is stored and
  returned. \<open>deepOwnerOf\<close> is a call that nothing interleaves with.
\<close>

definition deepOwnerOf_resume :: "env \<Rightarrow> string \<Rightarrow> state \<Rightarrow> string promise \<times> state" where
  "deepOwnerOf_resume e operatorAddress s =
     (case contractsFromWeb3 e of
        Inl x \<Rightarrow> (Inl x, s)
      | Inr _ \<Rightarrow>
          (let p = lookupOwner e operatorAddress in
           (p, s\<lparr> delegationInfoCache := (delegationInfoCache s)
                     (operatorAddress \<mapsto> (cacheEntry s operatorAddress)\<lparr>owner := Some p\<rparr>),
                   ownerQueries := ownerQueries s @ [operatorAddress] \<rparr>)))"

definition deepOwnerOf :: "env \<Rightarrow> string \<Rightarrow> state \<Rightarrow> string promise \<times> state" where
  "deepOwnerOf e operatorAddress s =
     (case cachedOwner s operatorAddress of
        Some p \<Rightarrow> (p, s)
      | None \<Rightarrow> deepOwnerOf_resume e operatorAddress s)"

subsection \<open>Reading and verifying a beneficiary attestation\<close>

definition beneficiaryFile :: "env \<Rightarrow> string \<Rightarrow> string" where
  "beneficiaryFile e operatorAddress =
     orElse (beneficiaryDirectory e) ''beneficiaries'' @ ''/'' @
     toLowerCase operatorAddress @ ''.json''"

text \<open>
  Lines 363 to 372: the policy check on the recovered address. The owner is only looked
  up when the recovered address differs from the beneficiary. \<open>Inr ()\<close> lets
  \<open>readBeneficiary\<close> go on.
\<close>

definition checkSigner :: "env \<Rightarrow> string \<Rightarrow> string \<Rightarrow> state \<Rightarrow> (exn + unit) \<times> state" where
  "checkSigner e operatorAddress recoveredAddress s =
     (case beneficiaryOf e operatorAddress s of
        (Inl x, s1) \<Rightarrow> (Inl x, s1)
      | (Inr b, s1) \<Rightarrow>
          if toLowerCase recoveredAddress \<noteq> toLowerCase b then
            (case deepOwnerOf e operatorAddress s1 of
               (Inl x, s2) \<Rightarrow> (Inl x, s2)
             | (Inr ow, s2) \<Rightarrow>
                 if toLowerCase recoveredAddress = toLowerCase ow then
                   (Inl (newError (''Beneficiary address for '' @ operatorAddress @
                      '' was not signed by operator owner or beneficiary.'')), s2)
                 else (Inr (), s2))
          else (Inr (), s1))"

text \<open>
  Lines 347 to 401 of \<^verbatim>\<open>readBeneficiary\<close>: what is done with the parsed file. A
  field that is absent or empty is falsy. On success the destination is stored in
  \<^verbatim>\<open>operatorBeneficiaries\<close>.
\<close>

definition verifyAttestation ::
    "env \<Rightarrow> string \<Rightarrow> attestation \<Rightarrow> state \<Rightarrow> (exn + string option) \<times> state" where
  "verifyAttestation e operatorAddress jsonContents s =
     (case (msg jsonContents, sig jsonContents, address jsonContents) of
        (Some message, Some signature, Some signer) \<Rightarrow>
          if message = [] \<or> signature = [] \<or> signer = [] then
            (Inl (newError (''Invalid format for '' @ operatorAddress @
               '': message, signature, or signing address missing.'')), s)
          else
            (case accounts_recover e message signature of
               Inl x \<Rightarrow> (Inl x, s)
             | Inr recoveredAddress \<Rightarrow>
                 if recoveredAddress \<noteq> signer then
                   (Inl (newError (''Recovered address does not match signing address for '' @
                      operatorAddress @ ''.'')), s)
                 else
                   (case checkSigner e operatorAddress recoveredAddress s of
                      (Inl x, s') \<Rightarrow> (Inl x, s')
                    | (Inr _, s') \<Rightarrow>
                        (case extractDestination operatorAddress message of
                           Inl x \<Rightarrow> (Inl x, s')
                         | Inr destination \<Rightarrow>
                             (Inr (Some destination),
                              s'\<lparr> operatorBeneficiaries :=
                                    (operatorBeneficiaries s')(operatorAddress \<mapsto> destination) \<rparr>))))
      | _ \<Rightarrow>
          (Inl (newError (''Invalid format for '' @ operatorAddress @
             '': message, signature, or signing address missing.'')), s))"

text \<open>
  \<open>readBeneficiary\<close> returns \<open>Inr None\<close> for \<^verbatim>\<open>null\<close>: the file is not there, or
  is not a regular file. A cached destination is returned when it is truthy.
\<close>

definition readBeneficiary :: "env \<Rightarrow> string \<Rightarrow> state \<Rightarrow> (exn + string option) \<times> state" where
  "readBeneficiary e operatorAddress s =
     (if truthyStr (operatorBeneficiaries s operatorAddress) then
        (Inr (operatorBeneficiaries s operatorAddress), s)
      else
        (case fs_stat e (beneficiaryFile e operatorAddress) of
           Inl _ \<Rightarrow> (Inr None, s)
         | Inr kind \<Rightarrow>
             if kind \<noteq> File then (Inr None, s)
             else
               (case fs_readFile e (beneficiaryFile e operatorAddress) of
                  Inl x \<Rightarrow> (Inl x, s)
                | Inr contents \<Rightarrow>
                    (case JSON_parse e contents of
                       Inl x \<Rightarrow> (Inl x, s)
                     | Inr jsonContents \<Rightarrow> verifyAttestation e operatorAddress jsonContents s))))"

text \<open>
  \<^verbatim>\<open>Promise.all\<close> over settled promises: the values in order, or a rejection. The calls
  are modelled one after the other, so the rejection is that of the first call of the list
  that rejects.
\<close>

fun promiseAll :: "'a promise list \<Rightarrow> 'a list promise" where
  "promiseAll [] = Inr []"
| "promiseAll (Inl x # ps) = Inl x"
| "promiseAll (Inr v # ps) = (case promiseAll ps of Inl x \<Rightarrow> Inl x | Inr vs \<Rightarrow> Inr (v # vs))"

text \<open>
  The object that \<^verbatim>\<open>beneficiariesAvailableAndSigned\<close> resolves to. All three
  \<^verbatim>\<open>readBeneficiary\<close> calls are started by \<^verbatim>\<open>operators.map\<close> and run whether or
  not another one throws. A failing \<^verbatim>\<open>getMembers\<close> is outside the \<^verbatim>\<open>try\<close>.
\<close>

definition beneficiariesAvailableAndSigned :: "env \<Rightarrow> string \<Rightarrow> state \<Rightarrow> (exn + row) \<times> state" where
  "beneficiariesAvailableAndSigned e keepAddress s =
     (case keep_getMembers e keepAddress of
        Inl x \<Rightarrow> (Inl x, s)
      | Inr (o1, o2, o3) \<Rightarrow>
          (case readBeneficiary e o1 s of (r1, s1) \<Rightarrow>
           case readBeneficiary e o2 s1 of (r2, s2) \<Rightarrow>
           case readBeneficiary e o3 s2 of (r3, s3) \<Rightarrow>
             (case promiseAll [r1, r2, r3] of
                Inl x \<Rightarrow> (Inr [(''error'', JStr (''beneficiary lookup failed: '' @ x))], s3)
              | Inr beneficiaries \<Rightarrow>
                  (let unavailableBeneficiaries =
                         map fst (filter (\<lambda>(operator, b). b = None) (zip [o1, o2, o3] beneficiaries))
                   in if length unavailableBeneficiaries > 0 then
                        (Inr [(''error'', JStr (''not all beneficiaries are available (missing '' @
                                 joinWith '','' unavailableBeneficiaries @ '')''))], s3)
                      else
                        (Inr [(''beneficiary1'', nullable (beneficiaries ! 0)),
                              (''beneficiary2'', nullable (beneficiaries ! 1)),
                              (''beneficiary3'', nullable (beneficiaries ! 2))], s3)))))"

definition buildAndBroadcastLiquidationSplit :: "row \<Rightarrow> row promise" where
  "buildAndBroadcastLiquidationSplit keepData = Inr []"

subsection \<open>The pipeline\<close>

text \<open>
  A processor takes the row and resolves to the updated row, or throws, unless the
  process dies under it. \<open>rowKeep\<close> is \<^verbatim>\<open>row.keep\<close> where an address string is
  expected.
\<close>

type_synonym processor = "row \<Rightarrow> state \<Rightarrow> (row promise \<times> state) outcome"

definition rowKeep :: "row \<Rightarrow> string" where
  "rowKeep r = toString (map_of r ''keep'')"

definition keySharesProcessor :: "env \<Rightarrow> processor" where
  "keySharesProcessor e r s =
     (case keySharesReady e (rowKeep r) of
        Died x \<Rightarrow> Died x
      | Alive ready \<Rightarrow>
          if ready then Alive (Inr r, s)
          else Alive (Inr (AList.update ''error'' (JStr ''missing key shares'') r), s))"

definition statusProcessor :: "env \<Rightarrow> processor" where
  "statusProcessor e r s =
     Alive (case keepStatusCompleted e (rowKeep r) s of
        (Inl x, s') \<Rightarrow> (Inl x, s')
      | (Inr status, s') \<Rightarrow>
          if truthyStr status then (Inr (AList.update ''status'' (nullable status) r), s')
          else (Inr (AList.update ''error'' (JStr ''no status'') r), s'))"

definition balanceProcessor :: "env \<Rightarrow> processor" where
  "balanceProcessor e r s =
     Alive (case keepHoldsBtc e (rowKeep r) of
        Inl x \<Rightarrow> (Inl x, s)
      | Inr (bitcoinAddress, btcBalance) \<Rightarrow>
          if btcBalance > 0 then
            (Inr (spread r [(''bitcoinAddress'', JStr bitcoinAddress),
                            (''btcBalance'', JNum btcBalance)]), s)
          else (Inr (AList.update ''error'' (JStr ''no BTC'') r), s))"

definition genericStatusProcessors :: "env \<Rightarrow> processor list" where
  "genericStatusProcessors e = [keySharesProcessor e, statusProcessor e, balanceProcessor e]"

definition beneficiariesProcessor :: "env \<Rightarrow> processor" where
  "beneficiariesProcessor e r s =
     Alive (case beneficiariesAvailableAndSigned e (rowKeep r) s of
        (Inl x, s') \<Rightarrow> (Inl x, s')
      | (Inr beneficiaries, s') \<Rightarrow>
          if truthyObject beneficiaries then (Inr (spread r beneficiaries), s')
          else (Inr (AList.update ''error'' (JStr ''no beneficiary'') r), s'))"

definition splitProcessor :: processor where
  "splitProcessor r s =
     Alive (case buildAndBroadcastLiquidationSplit r of
        Inl x \<Rightarrow> (Inl x, s)
      | Inr transactionData \<Rightarrow>
          if truthyObject transactionData then (Inr (spread r transactionData), s)
          else (Inr (AList.update ''error''
             (JStr ''failed to build and broadcast liquidation split BTC transaction'') r), s))"

definition liquidationProcessors :: "env \<Rightarrow> processor list" where
  "liquidationProcessors e = [beneficiariesProcessor e, splitProcessor]"

definition misfundProcessors :: "processor list" where
  "misfundProcessors = [\<lambda>r s. Alive (Inr r, s)]"

text \<open>
  The callback of the \<^verbatim>\<open>reduce\<close> in \<^verbatim>\<open>processThrough\<close>. The accumulator is a
  promise of a row. \<^verbatim>\<open>await rowPromise\<close> stands before the \<^verbatim>\<open>try\<close>, so a rejected
  accumulator would reject the result; what the processor throws is caught. Nothing goes
  on once the process has died.
\<close>

definition processStep ::
    "(row promise \<times> state) outcome \<Rightarrow> processor \<Rightarrow> (row promise \<times> state) outcome" where
  "processStep acc process =
     (case acc of
        Died x \<Rightarrow> Died x
      | Alive (Inl x, s) \<Rightarrow> Alive (Inl x, s)
      | Alive (Inr r, s) \<Rightarrow>
          if \<not> truthy (map_of r ''error'') then
            (case process r s of
               Died x \<Rightarrow> Died x
             | Alive (Inr r', s') \<Rightarrow> Alive (Inr r', s')
             | Alive (Inl x, s') \<Rightarrow>
                 Alive (Inr (AList.update ''error''
                               (JStr (''Error processing transaction: '' @ x)) r), s'))
          else Alive (Inr r, s))"

definition processThrough ::
    "row \<Rightarrow> processor list \<Rightarrow> state \<Rightarrow> (row promise \<times> state) outcome" where
  "processThrough inputData processors s =
     foldl processStep (Alive (Inr inputData, s)) processors"

text \<open>
  The task of one keep: the \<^verbatim>\<open>async keep => ...\<close> callback of \<^verbatim>\<open>processKeeps\<close>.
  The assignment of the electrum configuration, a constant of \<^verbatim>\<open>config.json\<close>, is
  left out.
\<close>

definition processKeep :: "env \<Rightarrow> string \<Rightarrow> state \<Rightarrow> (row promise \<times> state) outcome" where
  "processKeep e keep s =
     (case processThrough [(''keep'', JStr keep)] (genericStatusProcessors e) s of
        Died x \<Rightarrow> Died x
      | Alive (Inl x, s') \<Rightarrow> Alive (Inl x, s')
      | Alive (Inr basicInfo, s') \<Rightarrow>
          if map_of basicInfo ''status'' = Some (JStr ''terminated'') then
            processThrough basicInfo (liquidationProcessors e) s'
          else if map_of basicInfo ''status'' = Some (JStr ''closed'') then
            processThrough basicInfo misfundProcessors s'
          else Alive (Inr basicInfo, s'))"

text \<open>
  A \<^verbatim>\<open>Set\<close> as the list of its members in insertion order. The input rows are the
  parsed lines of the CSV file: objects from column title to text. The rows that pass the
  filter have a \<^verbatim>\<open>keep\<close>, which the reducer adds.
\<close>

definition setAdd :: "'a list \<Rightarrow> 'a \<Rightarrow> 'a list" where
  "setAdd members x = (if x \<in> set members then members else members @ [x])"

type_synonym csvRow = "(string \<times> string) list"

definition keepSet :: "csvRow list \<Rightarrow> string list" where
  "keepSet keepRows =
     foldl (\<lambda>members r. case map_of r ''keep'' of
                             Some keep \<Rightarrow> setAdd members keep
                           | None \<Rightarrow> members)
       [] (filter (\<lambda>r. truthyStr (map_of r ''keep'')) keepRows)"

text \<open>
  The tasks are modelled one after the other, in the order of the set. Every task is
  started whatever the others do, and \<^verbatim>\<open>Promise.all\<close> collects the rows. When the
  process dies under a task, there is no result.
\<close>

fun runTasks :: "env \<Rightarrow> string list \<Rightarrow> state \<Rightarrow> (row promise list \<times> state) outcome" where
  "runTasks e [] s = Alive ([], s)"
| "runTasks e (keep # keeps) s =
     (case processKeep e keep s of
        Died x \<Rightarrow> Died x
      | Alive (result, s') \<Rightarrow>
          (case runTasks e keeps s' of
             Died x \<Rightarrow> Died x
           | Alive (results, s'') \<Rightarrow> Alive (result # results, s'')))"

definition processKeeps ::
    "env \<Rightarrow> csvRow list \<Rightarrow> state \<Rightarrow> (row list promise \<times> state) outcome" where
  "processKeeps e keepRows s =
     (case runTasks e (keepSet keepRows) s of
        Died x \<Rightarrow> Died x
      | Alive (results, s') \<Rightarrow> Alive (promiseAll results, s'))"

subsection \<open>The output table\<close>





subsection \<open>Overlapping calls to the delegation cache\<close>

text \<open>
  The tasks of the keeps run concurrently on one thread, and so do the three
  \<^verbatim>\<open>readBeneficiary\<close> calls of a keep. Control changes hands only at an
  \<^verbatim>\<open>await\<close>, so the cache sees a sequence of steps: a whole call of
  \<^verbatim>\<open>beneficiaryOf\<close>; the start of a \<^verbatim>\<open>deepOwnerOf\<close> call, which returns on a hit
  and otherwise waits at its \<^verbatim>\<open>await\<close>; the rest of a waiting \<^verbatim>\<open>deepOwnerOf\<close>
  call. \<open>schedule\<close> runs such a sequence from the initial state and keeps the list of
  the calls that wait.
\<close>

datatype event = CallBeneficiaryOf string | CallDeepOwnerOf string | ResumeDeepOwnerOf string

fun deliver :: "env \<Rightarrow> state \<times> string list \<Rightarrow> event \<Rightarrow> state \<times> string list" where
  "deliver e (s, waiting) (CallBeneficiaryOf operatorAddress) =
     (snd (beneficiaryOf e operatorAddress s), waiting)"
| "deliver e (s, waiting) (CallDeepOwnerOf operatorAddress) =
     (case cachedOwner s operatorAddress of
        Some p \<Rightarrow> (s, waiting)
      | None \<Rightarrow> (s, waiting @ [operatorAddress]))"
| "deliver e (s, waiting) (ResumeDeepOwnerOf operatorAddress) =
     (if operatorAddress \<in> set waiting
      then (snd (deepOwnerOf_resume e operatorAddress s), remove1 operatorAddress waiting)
      else (s, waiting))"

definition schedule :: "env \<Rightarrow> event list \<Rightarrow> state \<times> string list" where
  "schedule e events = foldl (deliver e) (initialState, []) events"

text \<open>
  A sequence of steps, run from a state and a list of waiting calls, in which no
  \<^verbatim>\<open>deepOwnerOf\<close> call for a signer starts while another call for the same signer
  waits at its \<^verbatim>\<open>await\<close>. Calls for different signers may overlap, and calls of
  \<^verbatim>\<open>beneficiaryOf\<close> may come at any point.
\<close>

fun overlapFree :: "env \<Rightarrow> state \<times> string list \<Rightarrow> event list \<Rightarrow> bool" where
  "overlapFree e c [] = True"
| "overlapFree e c (CallBeneficiaryOf a # events) =
     overlapFree e (deliver e c (CallBeneficiaryOf a)) events"
| "overlapFree e c (CallDeepOwnerOf a # events) =
     (a \<notin> set (snd c) \<and> overlapFree e (deliver e c (CallDeepOwnerOf a)) events)"
| "overlapFree e c (ResumeDeepOwnerOf a # events) =
     overlapFree e (deliver e c (ResumeDeepOwnerOf a)) events"

subsection \<open>Notions used in the statements\<close>

text \<open>The processors that \<^verbatim>\<open>processKeeps\<close> dispatches after the generic ones.\<close>

definition branchProcessors :: "env \<Rightarrow> row \<Rightarrow> processor list" where
  "branchProcessors e basicInfo =
     (if map_of basicInfo ''status'' = Some (JStr ''terminated'') then liquidationProcessors e
      else if map_of basicInfo ''status'' = Some (JStr ''closed'') then misfundProcessors
      else [])"

text \<open>
  A row of the keep \<open>keep\<close>: its \<^verbatim>\<open>keep\<close> field is the keep, an \<^verbatim>\<open>error\<close>
  field, when it has one, is truthy, and its fields are among those that the processors
  write.
\<close>

definition rowFields :: "string list" where
  "rowFields = [''keep'', ''status'', ''bitcoinAddress'', ''btcBalance'',
                ''beneficiary1'', ''beneficiary2'', ''beneficiary3'', ''error'']"

definition keepRow :: "string \<Rightarrow> row \<Rightarrow> bool" where
  "keepRow keep r \<longleftrightarrow>
     map_of r ''keep'' = Some (JStr keep) \<and>
     (map_of r ''error'' = None \<or> truthy (map_of r ''error'')) \<and>
     fst ` set r \<subseteq> set rowFields"

definition keepRowProcessor :: "processor \<Rightarrow> bool" where
  "keepRowProcessor p \<longleftrightarrow>
     (\<forall>keep r s r' s'. keepRow keep r \<longrightarrow> map_of r ''error'' = None \<longrightarrow>
        p r s = Alive (Inr r', s') \<longrightarrow> keepRow keep r')"

text \<open>The cached beneficiary promises are those that the chain client gives.\<close>

definition cacheAgrees :: "env \<Rightarrow> state \<Rightarrow> bool" where
  "cacheAgrees e s \<longleftrightarrow>
     (\<forall>operatorAddress p. cachedBeneficiary s operatorAddress = Some p \<longrightarrow>
        p = tokenStaking_beneficiaryOf e operatorAddress)"

text \<open>
  The conditions on the attestation of a signer under which the liquidation scenario is
  stated, each one as the code tests it:
  \<^item> the file of the signer exists, is a regular file, can be read and parses;
  \<^item> its \<^verbatim>\<open>msg\<close>, \<^verbatim>\<open>sig\<close> and \<^verbatim>\<open>address\<close> fields are there and not empty;
  \<^item> the signature recovers to the \<^verbatim>\<open>address\<close> field character for character, as
    the comparison of line 357 asks: a file whose \<^verbatim>\<open>address\<close> is written in another
    letter case than the recovered address does not qualify;
  \<^item> the \<^verbatim>\<open>address\<close> field is the beneficiary address of the signer up to letter
    case;
  \<^item> the message has exactly one match of the address pattern, or no match of the address
    pattern and exactly one match of the extended key pattern: a message whose only
    descriptor is an extended key inside which the address pattern matches twice does not
    qualify.
\<close>

definition beneficiaryAttestation :: "env \<Rightarrow> string \<Rightarrow> bool" where
  "beneficiaryAttestation e operatorAddress =
     (case fs_stat e (beneficiaryFile e operatorAddress) of
        Inr File \<Rightarrow>
          (case fs_readFile e (beneficiaryFile e operatorAddress) of
             Inr contents \<Rightarrow>
               (case JSON_parse e contents of
                  Inr jsonContents \<Rightarrow>
                    (case (msg jsonContents, sig jsonContents, address jsonContents) of
                       (Some message, Some signature, Some signer) \<Rightarrow>
                         message \<noteq> [] \<and> signature \<noteq> [] \<and> signer \<noteq> [] \<and>
                         accounts_recover e message signature = Inr signer \<and>
                         (case tokenStaking_beneficiaryOf e operatorAddress of
                            Inr b \<Rightarrow> toLowerCase signer = toLowerCase b
                          | Inl _ \<Rightarrow> False) \<and>
                         (length (matchAll matchAddressAt message) = 1 \<or>
                          (matchAll matchAddressAt message = [] \<and>
                           length (matchAll matchPubAt message) = 1))
                     | _ \<Rightarrow> False)
                | Inl _ \<Rightarrow> False)
           | Inl _ \<Rightarrow> False)
      | _ \<Rightarrow> False)"

text \<open>
  A query log is sound when it names no signer twice and every signer it names has the
  field in the cache.
\<close>

definition beneficiaryLogSound :: "state \<Rightarrow> bool" where
  "beneficiaryLogSound s \<longleftrightarrow>
     distinct (beneficiaryQueries s) \<and>
     (\<forall>a \<in> set (beneficiaryQueries s). cachedBeneficiary s a \<noteq> None)"

definition ownerLogSound :: "state \<Rightarrow> bool" where
  "ownerLogSound s \<longleftrightarrow>
     distinct (ownerQueries s) \<and>
     (\<forall>a \<in> set (ownerQueries s). cachedOwner s a \<noteq> None)"

text \<open>
  The waiting \<^verbatim>\<open>deepOwnerOf\<close> calls are sound when no signer waits twice and no
  signer that waits has its owner in the cache.
\<close>

definition waitingSound :: "state \<times> string list \<Rightarrow> bool" where
  "waitingSound c \<longleftrightarrow>
     ownerLogSound (fst c) \<and> distinct (snd c) \<and>
     (\<forall>a \<in> set (snd c). cachedOwner (fst c) a = None)"

subsection \<open>A sample world\<close>

text \<open>
  A keep \<open>0xK1\<close> that is terminated, with its key shares, members \<open>0xA1\<close>, \<open>0xA2\<close>
  and \<open>0xA3\<close>, and for each member an attestation file claiming the address \<open>signer\<close>,
  to which its signature recovers. Every member has the beneficiary \<open>0xbe\<close> and the
  owner \<open>0x0d\<close>. The keep holds \<open>balance\<close>. Other keeps have no key shares. The
  signer process exits with code 0 and prints a public key, a tab and a signature.
\<close>

definition sampleEnv :: "string \<Rightarrow> int \<Rightarrow> env" where
  "sampleEnv signer balance =
     \<lparr> keepEcdsaClientPath = None,
       keyShareDirectory = None,
       beneficiaryDirectory = None,
       fs_stat = (\<lambda>path.
          if path = ''key-shares/0xK1'' then Inr Directory
          else if path = ''beneficiaries/0xa1.json'' \<or> path = ''beneficiaries/0xa2.json'' \<or>
                  path = ''beneficiaries/0xa3.json'' then Inr File
          else Inl ''Error: ENOENT''),
       fs_readdir = (\<lambda>path. Inr [''share1'', ''share2'', ''share3'']),
       fs_readFile = (\<lambda>path. Inr ''{..}''),
       spawn = (\<lambda>command arguments.
          \<lparr> childStdout = ''0xpub'' @ [CHR 0x09] @ ''0xsig'' @ [CHR 0x0A],
            childStderr = [],
            childEnded = ExitEvent (Some 0) None \<rparr>),
       web3_getBlockNumber = Inr 1000,
       keep_isClosed = (\<lambda>keepAddress block. Inr False),
       keep_isTerminated = (\<lambda>keepAddress block. Inr True),
       keep_getPublicKey = (\<lambda>keepAddress. Inr ''0x04ab''),
       keep_getMembers = (\<lambda>keepAddress. Inr (''0xA1'', ''0xA2'', ''0xA3'')),
       publicKeyToP2WPKHAddress = (\<lambda>publicKey. Inr (''bc1q'' @ publicKey)),
       getBalance = (\<lambda>bitcoinAddress. Inr balance),
       JSON_parse = (\<lambda>contents.
          Inr \<lparr> msg = Some ''pay 1BoatSLRHtKNngkdXEeobR76b53LETtpyT'',
                sig = Some ''0x1b'', address = Some signer \<rparr>),
       accounts_recover = (\<lambda>message signature. Inr signer),
       tokenStaking_beneficiaryOf = (\<lambda>operatorAddress. Inr ''0xbe''),
       contractsFromWeb3 = Inr (),
       lookupOwner = (\<lambda>operatorAddress. Inr ''0x0d'') \<rparr>"

section \<open>Destination extraction\<close>

text \<open>
  A match of either pattern is a non-empty prefix of the text it is tried on, which is what
  \<open>matchAll\<close> relies on when it continues behind the match.
\<close>

lemma take_takeWhile_prefix:
  "take (length (take n (takeWhile P xs))) xs = take n (takeWhile P xs)"
proof -
  have "take n (takeWhile P xs) = take n (take (length (takeWhile P xs)) xs)"
    using takeWhile_eq_take [of P xs] by simp
  moreover have "min n (length (takeWhile P xs)) \<le> length xs"
    using length_takeWhile_le [of P xs] by simp
  ultimately show ?thesis by (simp add: min_absorb2)
qed

lemma take_eq_imp_append: "take n xs = ys \<Longrightarrow> xs = ys @ drop n xs"
  using append_take_drop_id [of n xs] by simp

lemma addressPrefix_split:
  assumes "addressPrefix s = Some (p, rest)"
  shows "s = p @ rest \<and> 1 \<le> length p \<and> length p \<le> 3"
proof (cases s)
  case Nil
  with assms show ?thesis by (simp add: addressPrefix_def)
next
  case (Cons c cs)
  show ?thesis
  proof (cases "c = CHR ''1'' \<or> c = CHR ''3''")
    case True
    with assms Cons show ?thesis by (auto simp: addressPrefix_def)
  next
    case False
    with assms Cons have t: "take 3 s = ''bc1''" and p: "p = ''bc1''" and r: "rest = drop 3 s"
      by (auto simp: addressPrefix_def split: if_splits)
    from take_eq_imp_append [OF t] p r show ?thesis by simp
  qed
qed

lemma matchAddressAt_prefix:
  assumes "matchAddressAt s = Some m"
  shows "27 \<le> length m \<and> length m \<le> 36 \<and> take (length m) s = m"
proof -
  from assms obtain p rest where pr: "addressPrefix s = Some (p, rest)"
    and m: "m = p @ take 33 (takeWhile isAlnum rest)"
    and len: "26 \<le> length (take 33 (takeWhile isAlnum rest))"
    by (auto simp: matchAddressAt_def Let_def split: option.splits if_splits)
  from addressPrefix_split [OF pr] have s: "s = p @ rest" and p: "1 \<le> length p" "length p \<le> 3"
    by simp_all
  have "take (length m) s = p @ take (length (take 33 (takeWhile isAlnum rest))) rest"
    unfolding m s by simp
  then have "take (length m) s = m"
    unfolding m using take_takeWhile_prefix [of 33 isAlnum rest] by simp
  moreover have "27 \<le> length m" "length m \<le> 36" using m len p by simp_all
  ultimately show ?thesis by simp
qed

lemma matchPubAt_prefix:
  assumes "matchPubAt s = Some m"
  shows "4 \<le> length m \<and> take (length m) s = m"
proof (cases s)
  case Nil
  with assms show ?thesis by (simp add: matchPubAt_def)
next
  case (Cons c cs)
  with assms have t: "take 3 cs = ''pub''" and m: "m = c # ''pub'' @ takeWhile isAlnum (drop 3 cs)"
    by (auto simp: matchPubAt_def split: if_splits)
  from take_eq_imp_append [OF t] have cs: "cs = ''pub'' @ drop 3 cs" .
  have "take (length m) s = c # ''pub'' @ take (length (takeWhile isAlnum (drop 3 cs))) (drop 3 cs)"
    unfolding m Cons by (subst cs) simp
  also have "\<dots> = m" unfolding m using takeWhile_eq_take [of isAlnum "drop 3 cs"] by simp
  finally show ?thesis using m by simp
qed

lemma matchAll_continues_behind_match:
  assumes "re (c # cs) = Some m" and "1 \<le> length m"
  shows "matchAll re (c # cs) = m # matchAll re (drop (length m) (c # cs))"
proof -
  from assms(2) obtain n where "length m = Suc n" by (cases "length m") auto
  with assms(1) show ?thesis by simp
qed

lemmas matcher_defs = matchAddressAt_def addressPrefix_def matchPubAt_def isAlnum_def Let_def

lemma extractDestination_cases:
  "(extractDestination operatorAddress message = Inr d \<longleftrightarrow>
      matchAll matchAddressAt message = [d] \<or>
      (matchAll matchAddressAt message = [] \<and> matchAll matchPubAt message = [d])) \<and>
   ((\<exists>x. extractDestination operatorAddress message = Inl x) \<longleftrightarrow>
      2 \<le> length (matchAll matchAddressAt message) \<or>
      (matchAll matchAddressAt message = [] \<and> length (matchAll matchPubAt message) \<noteq> 1))"
proof (cases "matchAll matchAddressAt message")
  case Nil
  then show ?thesis
    by (cases "matchAll matchPubAt message" rule: list.exhaust;
        cases "tl (matchAll matchPubAt message)")
       (auto simp: extractDestination_def Let_def)
next
  case (Cons a as)
  then show ?thesis
    by (cases as) (auto simp: extractDestination_def Let_def)
qed

text \<open>
  C2, as stated, fails: this message holds two descriptors, an extended key and an address,
  and \<open>extractDestination\<close> returns the address. The extended keys are looked for only
  when no address is found.
\<close>

theorem extractDestination_two_descriptors:
  "matchAll matchAddressAt ''xpubABC 1BoatSLRHtKNngkdXEeobR76b53LETtpyT'' =
     [''1BoatSLRHtKNngkdXEeobR76b53LETtpyT''] \<and>
   matchAll matchPubAt ''xpubABC 1BoatSLRHtKNngkdXEeobR76b53LETtpyT'' = [''xpubABC''] \<and>
   extractDestination ''0xA1'' ''xpubABC 1BoatSLRHtKNngkdXEeobR76b53LETtpyT'' =
     Inr ''1BoatSLRHtKNngkdXEeobR76b53LETtpyT''"
  by (simp add: extractDestination_def matcher_defs)

text \<open>
  C2, amended: \<open>extractDestination\<close> returns a destination exactly when the message has
  exactly one address match, which it returns whatever extended keys the message also
  holds, or has no address match and exactly one extended key match, which it returns. It
  raises an error exactly when the message has two or more address matches, or has no
  address match and a number of extended key matches other than one.
\<close>

theorem extractDestination_result:
  "(extractDestination operatorAddress message = Inr d \<longleftrightarrow>
      matchAll matchAddressAt message = [d] \<or>
      (matchAll matchAddressAt message = [] \<and> matchAll matchPubAt message = [d])) \<and>
   ((\<exists>x. extractDestination operatorAddress message = Inl x) \<longleftrightarrow>
      2 \<le> length (matchAll matchAddressAt message) \<or>
      (matchAll matchAddressAt message = [] \<and> length (matchAll matchPubAt message) \<noteq> 1))"
  by (rule extractDestination_cases)

theorem extractDestination_result_witness:
  "(\<exists>x. extractDestination ''0xA1'' ''zpubAb ypubC'' = Inl x) \<and>
   extractDestination ''0xA1'' ''to zpubAb'' = Inr ''zpubAb''"
  using extractDestination_result [of "''0xA1''" "''zpubAb ypubC''" "''zpubAb''"]
        extractDestination_result [of "''0xA1''" "''to zpubAb''" "''zpubAb''"]
  by (simp add: matcher_defs)

lemmas attestation_defs =
  beneficiariesAvailableAndSigned_def readBeneficiary_def verifyAttestation_def checkSigner_def
  beneficiaryOf_def deepOwnerOf_def deepOwnerOf_resume_def cachedBeneficiary_def cachedOwner_def
  cacheEntry_def beneficiaryFile_def toLowerCase_def lowerChar_def isUpper_def
  extractDestination_def matcher_defs newError_def


section \<open>The stage boundary\<close>

lemma foldl_processStep_Died: "foldl processStep (Died x) ps = Died x"
  by (induction ps) (simp_all add: processStep_def)

lemma foldl_processStep_Inl: "foldl processStep (Alive (Inl x, s)) ps = Alive (Inl x, s)"
  by (induction ps) (simp_all add: processStep_def)

lemma processStep_frozen:
  "truthy (map_of r ''error'') \<Longrightarrow> processStep (Alive (Inr r, s)) p = Alive (Inr r, s)"
  by (simp add: processStep_def)

lemma processThrough_frozen:
  "truthy (map_of r ''error'') \<Longrightarrow> processThrough r ps s = Alive (Inr r, s)"
  unfolding processThrough_def
  by (induction ps) (simp_all add: processStep_frozen)

text \<open>A step from a row gives a row, unless the process dies.\<close>

lemma processStep_cases:
  "(\<exists>x. processStep (Alive (Inr r, s)) p = Died x) \<or>
   (\<exists>r' s'. processStep (Alive (Inr r, s)) p = Alive (Inr r', s'))"
proof (cases "p r s")
  case (Died x)
  then show ?thesis by (simp add: processStep_def)
next
  case (Alive res)
  then show ?thesis
    by (cases res; cases "fst res") (auto simp: processStep_def)
qed

lemma foldl_processStep_cases:
  "(\<exists>x. foldl processStep (Alive (Inr r, s)) ps = Died x) \<or>
   (\<exists>r' s'. foldl processStep (Alive (Inr r, s)) ps = Alive (Inr r', s'))"
proof (induction ps arbitrary: r s)
  case Nil
  then show ?case by simp
next
  case (Cons p ps)
  from processStep_cases [of r s p] show ?case
  proof
    assume "\<exists>x. processStep (Alive (Inr r, s)) p = Died x"
    then show ?thesis by (auto simp: foldl_processStep_Died)
  next
    assume "\<exists>r' s'. processStep (Alive (Inr r, s)) p = Alive (Inr r', s')"
    then obtain r1 s1 where "processStep (Alive (Inr r, s)) p = Alive (Inr r1, s1)" by blast
    with Cons.IH [of r1 s1] show ?thesis by simp
  qed
qed

lemma processThrough_cases:
  "(\<exists>x. processThrough r ps s = Died x) \<or>
   (\<exists>r' s'. processThrough r ps s = Alive (Inr r', s'))"
  unfolding processThrough_def by (rule foldl_processStep_cases)

lemma processThrough_Nil: "processThrough r [] s = Alive (Inr r, s)"
  by (simp add: processThrough_def)

lemma processThrough_append:
  "processThrough r ps s = Alive (Inr r', s') \<Longrightarrow>
   processThrough r (ps @ qs) s = processThrough r' qs s'"
  by (simp add: processThrough_def)

lemma processThrough_Cons:
  "processStep (Alive (Inr r, s)) p = Alive (Inr r', s') \<Longrightarrow>
   processThrough r (p # ps) s = processThrough r' ps s'"
  by (simp add: processThrough_def)

text \<open>When the whole list gives a row, so does its first step.\<close>

lemma processThrough_Cons_row:
  assumes "processThrough r (p # ps) s = Alive (Inr r', s')"
  obtains r1 s1 where "processStep (Alive (Inr r, s)) p = Alive (Inr r1, s1)"
    and "processThrough r1 ps s1 = Alive (Inr r', s')"
proof -
  from processStep_cases [of r s p] show thesis
  proof
    assume "\<exists>x. processStep (Alive (Inr r, s)) p = Died x"
    with assms show thesis by (auto simp: processThrough_def foldl_processStep_Died)
  next
    assume "\<exists>r1 s1. processStep (Alive (Inr r, s)) p = Alive (Inr r1, s1)"
    then obtain r1 s1 where step: "processStep (Alive (Inr r, s)) p = Alive (Inr r1, s1)"
      by blast
    with assms have "processThrough r1 ps s1 = Alive (Inr r', s')"
      by (simp add: processThrough_Cons)
    with step that show thesis by blast
  qed
qed

section \<open>Rows of the pipeline\<close>

lemma keepRow_error:
  "keepRow keep r \<Longrightarrow> x \<noteq> [] \<Longrightarrow> keepRow keep (AList.update ''error'' (JStr x) r)"
  by (simp add: keepRow_def update_conv' truthy_def dom_update rowFields_def)

lemma keepRow_field:
  "keepRow keep r \<Longrightarrow> k \<noteq> ''keep'' \<Longrightarrow> k \<noteq> ''error'' \<Longrightarrow> k \<in> set rowFields \<Longrightarrow>
   keepRow keep (AList.update k v r)"
  by (simp add: keepRow_def update_conv' dom_update)

lemma keepRow_initial: "keepRow keep [(''keep'', JStr keep)]"
  by (simp add: keepRow_def rowFields_def)

lemma keySharesProcessor_keepRow: "keepRowProcessor (keySharesProcessor e)"
  by (auto simp: keepRowProcessor_def keySharesProcessor_def keepRow_error
           split: if_splits outcome.splits)

lemma statusProcessor_keepRow: "keepRowProcessor (statusProcessor e)"
  by (auto simp: keepRowProcessor_def statusProcessor_def keepRow_error keepRow_field
                 rowFields_def
           split: if_splits prod.splits sum.splits)

lemma balanceProcessor_keepRow: "keepRowProcessor (balanceProcessor e)"
  by (auto simp: keepRowProcessor_def balanceProcessor_def spread_def keepRow_error keepRow_field
                 rowFields_def
           split: if_splits prod.splits sum.splits)

lemma beneficiariesAvailableAndSigned_object:
  assumes "beneficiariesAvailableAndSigned e keepAddress s = (Inr obj, s')"
  shows "(\<exists>x. x \<noteq> [] \<and> obj = [(''error'', JStr x)]) \<or>
         (\<exists>b1 b2 b3. obj = [(''beneficiary1'', b1), (''beneficiary2'', b2), (''beneficiary3'', b3)])"
  using assms
  by (auto simp: beneficiariesAvailableAndSigned_def Let_def
           split: sum.splits prod.splits if_splits)

lemma beneficiariesProcessor_keepRow: "keepRowProcessor (beneficiariesProcessor e)"
  unfolding keepRowProcessor_def
proof (intro allI impI)
  fix keep r s r' s'
  assume kr: "keepRow keep r" and "map_of r ''error'' = None"
    and run: "beneficiariesProcessor e r s = Alive (Inr r', s')"
  from run obtain obj where obj: "beneficiariesAvailableAndSigned e (rowKeep r) s = (Inr obj, s')"
    and r': "r' = spread r obj"
    by (auto simp: beneficiariesProcessor_def truthyObject_def split: sum.splits prod.splits)
  from beneficiariesAvailableAndSigned_object [OF obj] show "keepRow keep r'"
    using kr by (auto simp: r' spread_def keepRow_error keepRow_field rowFields_def)
qed

lemma splitProcessor_keepRow: "keepRowProcessor splitProcessor"
  by (auto simp: keepRowProcessor_def splitProcessor_def buildAndBroadcastLiquidationSplit_def
       truthyObject_def spread_def)

lemma misfundProcessors_keepRow: "\<forall>p \<in> set misfundProcessors. keepRowProcessor p"
  by (simp add: misfundProcessors_def keepRowProcessor_def)

lemma dispatched_keepRow:
  "\<forall>p \<in> set (genericStatusProcessors e @ branchProcessors e basicInfo). keepRowProcessor p"
  using misfundProcessors_keepRow
  by (simp add: genericStatusProcessors_def branchProcessors_def liquidationProcessors_def
      keySharesProcessor_keepRow statusProcessor_keepRow balanceProcessor_keepRow
      beneficiariesProcessor_keepRow splitProcessor_keepRow)

lemma processStep_keepRow:
  assumes "keepRowProcessor p" and "keepRow keep r"
    and "processStep (Alive (Inr r, s)) p = Alive (Inr r', s')"
  shows "keepRow keep r'"
proof (cases "truthy (map_of r ''error'')")
  case True
  with assms show ?thesis by (simp add: processStep_def)
next
  case False
  with assms(2) have none: "map_of r ''error'' = None" by (auto simp: keepRow_def)
  show ?thesis
  proof (cases "p r s")
    case (Died x)
    with False assms(3) show ?thesis by (simp add: processStep_def)
  next
    case (Alive res)
    obtain settled s1 where res: "res = (settled, s1)" by (cases res)
    show ?thesis
    proof (cases settled)
      case (Inl x)
      with Alive res False assms(3)
      have "r' = AList.update ''error'' (JStr (''Error processing transaction: '' @ x)) r"
        by (simp add: processStep_def)
      with assms(2) show ?thesis by (simp add: keepRow_error)
    next
      case (Inr r1)
      with Alive res False assms(3) have "r' = r1" by (simp add: processStep_def)
      with assms(1,2) none Alive res Inr show ?thesis unfolding keepRowProcessor_def by blast
    qed
  qed
qed

lemma processThrough_keepRow:
  assumes "\<forall>p \<in> set ps. keepRowProcessor p" and "keepRow keep r"
    and "processThrough r ps s = Alive (Inr r', s')"
  shows "keepRow keep r'"
  using assms
proof (induction ps arbitrary: r s)
  case Nil
  then show ?case by (simp add: processThrough_Nil)
next
  case (Cons p ps)
  from Cons.prems(3) obtain r1 s1
    where step: "processStep (Alive (Inr r, s)) p = Alive (Inr r1, s1)"
      and rest: "processThrough r1 ps s1 = Alive (Inr r', s')"
    by (rule processThrough_Cons_row)
  from Cons.prems(1,2) step have "keepRow keep r1"
    using processStep_keepRow by (metis list.set_intros(1))
  with rest show ?case using Cons.IH Cons.prems(1) by simp
qed

lemma processKeep_dispatched:
  assumes "processThrough [(''keep'', JStr keep)] (genericStatusProcessors e) s =
      Alive (Inr basicInfo, s1)"
  shows "processKeep e keep s =
         processThrough [(''keep'', JStr keep)]
           (genericStatusProcessors e @ branchProcessors e basicInfo) s"
  using assms
  by (simp add: processKeep_def branchProcessors_def processThrough_append processThrough_Nil)

text \<open>
  C3: take any point of the sequence of processors that \<^verbatim>\<open>processKeeps\<close> runs for a
  keep, the generic ones followed by those of the branch chosen by the status. If the row
  reached at that point carries an \<^verbatim>\<open>error\<close> field, then the processors behind that
  point leave the row and the state as they are, and the row is the terminal row of the
  keep. This includes a row that has its status and meets its error in a later generic
  processor: the branch processors are dispatched and do not run.
\<close>

theorem error_row_is_terminal:
  assumes "processThrough [(''keep'', JStr keep)] (genericStatusProcessors e) s =
      Alive (Inr basicInfo, s1)"
    and "genericStatusProcessors e @ branchProcessors e basicInfo = ps @ qs"
    and "processThrough [(''keep'', JStr keep)] ps s = Alive (Inr r, s')"
    and "map_of r ''error'' \<noteq> None"
  shows "processThrough r qs s' = Alive (Inr r, s') \<and> processKeep e keep s = Alive (Inr r, s')"
proof -
  have "\<forall>p \<in> set ps. keepRowProcessor p"
    using dispatched_keepRow [of e basicInfo] assms(2) by simp
  then have "keepRow keep r"
    using processThrough_keepRow keepRow_initial assms(3) by blast
  with assms(4) have "truthy (map_of r ''error'')" by (auto simp: keepRow_def)
  then have frozen: "processThrough r qs s' = Alive (Inr r, s')" by (rule processThrough_frozen)
  have "processKeep e keep s = processThrough [(''keep'', JStr keep)] (ps @ qs) s"
    using processKeep_dispatched [OF assms(1)] assms(2) by simp
  also have "\<dots> = processThrough r qs s'" using assms(3) by (rule processThrough_append)
  finally show ?thesis using frozen by simp
qed

lemmas pipeline_defs =
  processThrough_def processStep_def genericStatusProcessors_def liquidationProcessors_def
  keySharesProcessor_def keySharesReady_def signDigest_def trim_def isSpace_def
  statusProcessor_def keepStatusCompleted_def
  referenceBlock_def balanceProcessor_def keepHoldsBtc_def beneficiariesProcessor_def
  splitProcessor_def buildAndBroadcastLiquidationSplit_def rowKeep_def toString_def orElse_def
  truthyStr_def truthy_def truthyObject_def nullable_def spread_def Let_def

theorem error_row_is_terminal_witness:
  "processThrough [(''keep'', JStr ''0xK1'')] (genericStatusProcessors (sampleEnv ''0xBE'' 0))
      initialState =
     Alive (Inr [(''keep'', JStr ''0xK1''), (''status'', JStr ''terminated''),
                 (''error'', JStr ''no BTC'')],
            initialState\<lparr>startingBlock := Some 1000\<rparr>) \<and>
   branchProcessors (sampleEnv ''0xBE'' 0)
      [(''keep'', JStr ''0xK1''), (''status'', JStr ''terminated''), (''error'', JStr ''no BTC'')] =
     liquidationProcessors (sampleEnv ''0xBE'' 0) \<and>
   processKeep (sampleEnv ''0xBE'' 0) ''0xK1'' initialState =
     Alive (Inr [(''keep'', JStr ''0xK1''), (''status'', JStr ''terminated''),
                 (''error'', JStr ''no BTC'')],
            initialState\<lparr>startingBlock := Some 1000\<rparr>)"
proof -
  let ?e = "sampleEnv ''0xBE'' 0"
  let ?r = "[(''keep'', JStr ''0xK1''), (''status'', JStr ''terminated''), (''error'', JStr ''no BTC'')]"
  have generic: "processThrough [(''keep'', JStr ''0xK1'')] (genericStatusProcessors ?e) initialState =
      Alive (Inr ?r, initialState\<lparr>startingBlock := Some 1000\<rparr>)"
    by (simp add: pipeline_defs sampleEnv_def initialState_def)
  have branch: "branchProcessors ?e ?r = liquidationProcessors ?e"
    by (simp add: branchProcessors_def)
  have split: "genericStatusProcessors ?e @ branchProcessors ?e ?r =
      genericStatusProcessors ?e @ liquidationProcessors ?e"
    by (simp add: branch)
  have "map_of ?r ''error'' \<noteq> None" by simp
  from error_row_is_terminal [OF generic split generic this] generic branch
  show ?thesis by simp
qed

section \<open>Exceptions of a processor\<close>

lemma processThrough_caught:
  assumes "\<not> truthy (map_of r ''error'')" and "p r s = Alive (Inl x, s1)"
  shows "processThrough r (p # qs) s =
     Alive (Inr (AList.update ''error'' (JStr (''Error processing transaction: '' @ x)) r), s1)"
proof -
  let ?r = "AList.update ''error'' (JStr (''Error processing transaction: '' @ x)) r"
  have "processStep (Alive (Inr r, s)) p = Alive (Inr ?r, s1)"
    using assms by (simp add: processStep_def)
  then have "processThrough r (p # qs) s = processThrough ?r qs s1"
    by (rule processThrough_Cons)
  moreover have "truthy (map_of ?r ''error'')"
    by (simp add: update_conv' truthy_def)
  ultimately show ?thesis by (simp add: processThrough_frozen)
qed

text \<open>A task that does not die resolves to a row of its keep.\<close>

lemma processKeep_row:
  assumes "processKeep e keep s = Alive (res, s')"
  shows "\<exists>r. res = Inr r \<and> keepRow keep r"
proof -
  from processThrough_cases [of "[(''keep'', JStr keep)]" "genericStatusProcessors e" s]
  obtain basicInfo s1
    where generic: "processThrough [(''keep'', JStr keep)] (genericStatusProcessors e) s =
        Alive (Inr basicInfo, s1)"
    using assms by (auto simp: processKeep_def)
  let ?ps = "genericStatusProcessors e @ branchProcessors e basicInfo"
  from processKeep_dispatched [OF generic] assms
  have run: "processThrough [(''keep'', JStr keep)] ?ps s = Alive (res, s')" by simp
  with processThrough_cases [of "[(''keep'', JStr keep)]" ?ps s]
  obtain r where r: "res = Inr r" by auto
  with run have "keepRow keep r"
    using processThrough_keepRow [OF dispatched_keepRow keepRow_initial] by blast
  with r show ?thesis by simp
qed

lemma promiseAll_Inr: "promiseAll (map Inr vs) = Inr vs"
  by (induction vs) simp_all

lemma runTasks_rows:
  "runTasks e keeps s = Alive (results, s') \<Longrightarrow>
   \<exists>rows. results = map Inr rows \<and> list_all2 keepRow keeps rows"
proof (induction keeps arbitrary: s results)
  case Nil
  then show ?case by simp
next
  case (Cons keep keeps)
  from Cons.prems obtain res s1 rest
    where one: "processKeep e keep s = Alive (res, s1)"
      and more: "runTasks e keeps s1 = Alive (rest, s')"
      and results: "results = res # rest"
    by (auto split: outcome.splits prod.splits)
  from processKeep_row [OF one] obtain r where r: "res = Inr r" "keepRow keep r" by blast
  from Cons.IH [OF more] obtain rows where rows: "rest = map Inr rows" "list_all2 keepRow keeps rows"
    by blast
  have "results = map Inr (r # rows)" using results r rows by simp
  moreover have "list_all2 keepRow (keep # keeps) (r # rows)" using r rows by simp
  ultimately show ?case by blast
qed

lemma processKeeps_rows:
  assumes "processKeeps e keepRows s = Alive (res, s')"
  shows "\<exists>rows. res = Inr rows \<and> list_all2 keepRow (keepSet keepRows) rows"
proof -
  from assms obtain results where run: "runTasks e (keepSet keepRows) s = Alive (results, s')"
    and res: "res = promiseAll results"
    by (auto simp: processKeeps_def split: outcome.splits prod.splits)
  from runTasks_rows [OF run] obtain rows
    where "results = map Inr rows" and "list_all2 keepRow (keepSet keepRows) rows" by blast
  with res show ?thesis by (simp add: promiseAll_Inr)
qed

lemma list_all2_keepRow_keeps:
  "list_all2 keepRow keeps rows \<Longrightarrow>
   map (\<lambda>r. map_of r ''keep'') rows = map (\<lambda>keep. Some (JStr keep)) keeps"
  by (induction keeps rows rule: list_all2_induct) (simp_all add: keepRow_def)

text \<open>
  The process dies only under the signer: when the signer of every keep prints a tab or
  does not exit with code 0, every task and the batch resolve to rows.
\<close>

lemma keySharesReady_alive:
  "signDigest e keepAddress ''deadbeef'' = Alive res \<Longrightarrow> \<exists>b. keySharesReady e keepAddress = Alive b"
  by (cases res) (auto simp: keySharesReady_def Let_def split: sum.splits)

lemma dispatched_alive:
  assumes "\<forall>keepAddress. \<exists>res. signDigest e keepAddress ''deadbeef'' = Alive res"
    and "p \<in> set (genericStatusProcessors e @ branchProcessors e basicInfo)"
  shows "\<exists>res. p r s = Alive res"
proof -
  from assms(1) obtain res where "signDigest e (rowKeep r) ''deadbeef'' = Alive res" by blast
  then obtain b where "keySharesReady e (rowKeep r) = Alive b"
    using keySharesReady_alive by blast
  then have "\<exists>res. keySharesProcessor e r s = Alive res"
    by (simp add: keySharesProcessor_def)
  with assms(2) show ?thesis
    by (auto simp: genericStatusProcessors_def branchProcessors_def liquidationProcessors_def
          misfundProcessors_def statusProcessor_def balanceProcessor_def
          beneficiariesProcessor_def splitProcessor_def split: if_splits)
qed

lemma processStep_DiedD:
  "processStep (Alive (Inr r, s)) p = Died x \<Longrightarrow> p r s = Died x"
  by (auto simp: processStep_def split: if_splits outcome.splits prod.splits sum.splits)

lemma foldl_processStep_alive:
  assumes "\<And>p r s. p \<in> set ps \<Longrightarrow> \<exists>res. p r s = Alive res"
  shows "\<exists>r' s'. foldl processStep (Alive (Inr r, s)) ps = Alive (Inr r', s')"
  using assms
proof (induction ps arbitrary: r s)
  case Nil
  then show ?case by simp
next
  case (Cons p ps)
  from Cons.prems [of p r s] obtain res where "p r s = Alive res" by auto
  then have "processStep (Alive (Inr r, s)) p \<noteq> Died x" for x
    using processStep_DiedD [of r s p x] by auto
  with processStep_cases [of r s p]
  obtain r1 s1 where "processStep (Alive (Inr r, s)) p = Alive (Inr r1, s1)" by blast
  moreover have "\<exists>r' s'. foldl processStep (Alive (Inr r1, s1)) ps = Alive (Inr r', s')"
    using Cons.prems by (intro Cons.IH) simp
  ultimately show ?case by simp
qed

lemma processKeep_alive:
  assumes "\<forall>keepAddress. \<exists>res. signDigest e keepAddress ''deadbeef'' = Alive res"
  shows "\<exists>r s'. processKeep e keep s = Alive (Inr r, s')"
proof -
  have "\<exists>r' s'. processThrough [(''keep'', JStr keep)] (genericStatusProcessors e) s =
      Alive (Inr r', s')"
    unfolding processThrough_def
    using dispatched_alive [OF assms, of _ "[]"]
    by (intro foldl_processStep_alive) simp
  then obtain basicInfo s1
    where generic: "processThrough [(''keep'', JStr keep)] (genericStatusProcessors e) s =
        Alive (Inr basicInfo, s1)"
    by blast
  have "\<exists>r' s'. processThrough [(''keep'', JStr keep)]
      (genericStatusProcessors e @ branchProcessors e basicInfo) s = Alive (Inr r', s')"
    unfolding processThrough_def
    using dispatched_alive [OF assms, of _ basicInfo]
    by (intro foldl_processStep_alive) simp
  with processKeep_dispatched [OF generic] show ?thesis by simp
qed

lemma runTasks_alive:
  assumes "\<forall>keepAddress. \<exists>res. signDigest e keepAddress ''deadbeef'' = Alive res"
  shows "\<exists>results s'. runTasks e keeps s = Alive (results, s')"
proof (induction keeps arbitrary: s)
  case Nil
  then show ?case by simp
next
  case (Cons keep keeps)
  from processKeep_alive [OF assms, of keep s]
  obtain r s1 where "processKeep e keep s = Alive (Inr r, s1)" by blast
  moreover from Cons.IH [of s1] obtain results s2
    where "runTasks e keeps s1 = Alive (results, s2)" by blast
  ultimately show ?case by simp
qed

lemma processKeeps_alive:
  assumes "\<forall>keepAddress. \<exists>res. signDigest e keepAddress ''deadbeef'' = Alive res"
  shows "\<exists>rows s'. processKeeps e keepRows s = Alive (Inr rows, s') \<and>
           list_all2 keepRow (keepSet keepRows) rows"
proof -
  from runTasks_alive [OF assms, of "keepSet keepRows" s]
  obtain results s' where "runTasks e (keepSet keepRows) s = Alive (results, s')" by blast
  then have run: "processKeeps e keepRows s = Alive (promiseAll results, s')"
    by (simp add: processKeeps_def)
  from processKeeps_rows [OF run] show ?thesis using run by auto
qed

lemmas batch_defs =
  processKeeps_def keepSet_def setAdd_def processKeep_def

text \<open>
  C4, on the code: the signer of the keep \<open>0xK1\<close> exits with code 0 and prints no tab.
  \<^verbatim>\<open>signDigest\<close> throws in its \<^verbatim>\<open>exit\<close> listener, nothing catches the exception,
  and the process dies: the task of \<open>0xK1\<close> has no row, and neither has the keep
  \<open>0xK2\<close> of the same batch, whose own task resolved to a row before.
\<close>

theorem signer_output_without_tab_kills_batch:
  "signDigest
     ((sampleEnv ''0xBE'' 7)\<lparr>spawn := \<lambda>command arguments.
        \<lparr>childStdout = ''0xpub 0xsig'', childStderr = [], childEnded = ExitEvent (Some 0) None\<rparr>\<rparr>)
     ''0xK1'' ''deadbeef'' =
     Died ''TypeError: Cannot read properties of undefined (reading trim)'' \<and>
   processKeep
     ((sampleEnv ''0xBE'' 7)\<lparr>spawn := \<lambda>command arguments.
        \<lparr>childStdout = ''0xpub 0xsig'', childStderr = [], childEnded = ExitEvent (Some 0) None\<rparr>\<rparr>)
     ''0xK1'' initialState =
     Died ''TypeError: Cannot read properties of undefined (reading trim)'' \<and>
   processKeep
     ((sampleEnv ''0xBE'' 7)\<lparr>spawn := \<lambda>command arguments.
        \<lparr>childStdout = ''0xpub 0xsig'', childStderr = [], childEnded = ExitEvent (Some 0) None\<rparr>\<rparr>)
     ''0xK2'' initialState =
     Alive (Inr [(''keep'', JStr ''0xK2''), (''error'', JStr ''missing key shares'')], initialState) \<and>
   processKeeps
     ((sampleEnv ''0xBE'' 7)\<lparr>spawn := \<lambda>command arguments.
        \<lparr>childStdout = ''0xpub 0xsig'', childStderr = [], childEnded = ExitEvent (Some 0) None\<rparr>\<rparr>)
     [[(''keep'', ''0xK2'')], [(''keep'', ''0xK1'')]] initialState =
     Died ''TypeError: Cannot read properties of undefined (reading trim)''"
  by (simp add: batch_defs pipeline_defs sampleEnv_def initialState_def)

section \<open>The set of keeps and the output table\<close>

lemma foldl_setAdd_snoc: "foldl setAdd acc (xs @ [x]) = setAdd (foldl setAdd acc xs) x"
  by simp

lemma set_foldl_setAdd: "set (foldl setAdd acc xs) = set acc \<union> set xs"
  by (induction xs arbitrary: acc) (auto simp: setAdd_def)



lemma keepSet_eq:
  "keepSet keepRows =
     foldl setAdd [] (concat (map (\<lambda>r. case map_of r ''keep'' of
                                        None \<Rightarrow> []
                                      | Some keep \<Rightarrow> if keep = [] then [] else [keep]) keepRows))"
proof -
  have "foldl (\<lambda>members r. case map_of r ''keep'' of
                             Some keep \<Rightarrow> setAdd members keep
                           | None \<Rightarrow> members)
          acc (filter (\<lambda>r. truthyStr (map_of r ''keep'')) keepRows) =
        foldl setAdd acc (concat (map (\<lambda>r. case map_of r ''keep'' of
                                        None \<Rightarrow> []
                                      | Some keep \<Rightarrow> if keep = [] then [] else [keep]) keepRows))"
    for acc :: "string list"
    by (induction keepRows arbitrary: acc) (auto simp: truthyStr_def split: option.splits)
  then show ?thesis by (simp add: keepSet_def)
qed

lemma set_keepSet:
  "set (keepSet keepRows) =
     {keep. keep \<noteq> [] \<and> (\<exists>r \<in> set keepRows. map_of r ''keep'' = Some keep)}"
proof -
  have "set (concat (map (\<lambda>r. case map_of r ''keep'' of
                                 None \<Rightarrow> []
                               | Some keep \<Rightarrow> if keep = [] then [] else [keep]) keepRows)) =
        {keep. keep \<noteq> [] \<and> (\<exists>r \<in> set keepRows. map_of r ''keep'' = Some keep)}"
    by (induction keepRows) (auto split: option.splits if_splits)
  then show ?thesis by (simp add: keepSet_eq set_foldl_setAdd)
qed


lemma keepSet_drop:
  "\<not> truthyStr (map_of r ''keep'') \<Longrightarrow> keepSet (rows1 @ r # rows2) = keepSet (rows1 @ rows2)"
  by (simp add: keepSet_def)
















text \<open>
  C10: an input row whose \<^verbatim>\<open>keep\<close> is missing or empty makes no difference to the
  run: with the row or without it, the set of keeps is the same, and so is what
  \<^verbatim>\<open>processKeeps\<close> does. The keeps that get a task are the non-empty \<^verbatim>\<open>keep\<close>
  values of the input, all of them. Unless the process dies under a signer, the rows
  \<^verbatim>\<open>processKeeps\<close> resolves to are those of these keeps; and it does resolve to them
  when no signer kills the process.
\<close>

theorem rows_without_keep_are_dropped:
  "(map_of r ''keep'' = None \<or> map_of r ''keep'' = Some [] \<longrightarrow>
      keepSet (rows1 @ r # rows2) = keepSet (rows1 @ rows2) \<and>
      processKeeps e (rows1 @ r # rows2) s = processKeeps e (rows1 @ rows2) s) \<and>
   set (keepSet keepRows) =
     {keep. keep \<noteq> [] \<and> (\<exists>r \<in> set keepRows. map_of r ''keep'' = Some keep)} \<and>
   ((\<exists>x. processKeeps e keepRows s = Died x) \<or>
    (\<exists>rows s'. processKeeps e keepRows s = Alive (Inr rows, s') \<and>
      set (map (\<lambda>r. map_of r ''keep'') rows) =
        {Some (JStr keep) | keep.
           keep \<noteq> [] \<and> (\<exists>r \<in> set keepRows. map_of r ''keep'' = Some keep)})) \<and>
   ((\<forall>keepAddress. \<exists>res. signDigest e keepAddress ''deadbeef'' = Alive res) \<longrightarrow>
    (\<exists>rows s'. processKeeps e keepRows s = Alive (Inr rows, s') \<and>
      set (map (\<lambda>r. map_of r ''keep'') rows) =
        {Some (JStr keep) | keep.
           keep \<noteq> [] \<and> (\<exists>r \<in> set keepRows. map_of r ''keep'' = Some keep)}))"
proof -
  have keeps: "set (map (\<lambda>r. map_of r ''keep'') rows) =
        {Some (JStr keep) | keep.
           keep \<noteq> [] \<and> (\<exists>r \<in> set keepRows. map_of r ''keep'' = Some keep)}"
    if "list_all2 keepRow (keepSet keepRows) rows" for rows
  proof -
    from that
    have "map (\<lambda>r. map_of r ''keep'') rows = map (\<lambda>keep. Some (JStr keep)) (keepSet keepRows)"
      by (rule list_all2_keepRow_keeps)
    then have "set (map (\<lambda>r. map_of r ''keep'') rows) =
        (\<lambda>keep. Some (JStr keep)) ` set (keepSet keepRows)"
      by simp
    also have "\<dots> = {Some (JStr keep) | keep.
           keep \<noteq> [] \<and> (\<exists>r \<in> set keepRows. map_of r ''keep'' = Some keep)}"
      unfolding set_keepSet by blast
    finally show ?thesis .
  qed
  have dropped: "map_of r ''keep'' = None \<or> map_of r ''keep'' = Some [] \<longrightarrow>
      keepSet (rows1 @ r # rows2) = keepSet (rows1 @ rows2) \<and>
      processKeeps e (rows1 @ r # rows2) s = processKeeps e (rows1 @ rows2) s"
  proof
    assume "map_of r ''keep'' = None \<or> map_of r ''keep'' = Some []"
    then have "\<not> truthyStr (map_of r ''keep'')" by (auto simp: truthyStr_def)
    then have "keepSet (rows1 @ r # rows2) = keepSet (rows1 @ rows2)" by (rule keepSet_drop)
    then show "keepSet (rows1 @ r # rows2) = keepSet (rows1 @ rows2) \<and>
      processKeeps e (rows1 @ r # rows2) s = processKeeps e (rows1 @ rows2) s"
      by (simp add: processKeeps_def)
  qed
  have resolved: "(\<exists>x. processKeeps e keepRows s = Died x) \<or>
    (\<exists>rows s'. processKeeps e keepRows s = Alive (Inr rows, s') \<and>
      set (map (\<lambda>r. map_of r ''keep'') rows) =
        {Some (JStr keep) | keep.
           keep \<noteq> [] \<and> (\<exists>r \<in> set keepRows. map_of r ''keep'' = Some keep)})"
  proof (cases "processKeeps e keepRows s")
    case (Died x)
    then show ?thesis by simp
  next
    case (Alive result)
    obtain res s' where "result = (res, s')" by (cases result)
    with Alive have run: "processKeeps e keepRows s = Alive (res, s')" by simp
    from processKeeps_rows [OF run] obtain rows
      where "res = Inr rows" and "list_all2 keepRow (keepSet keepRows) rows" by blast
    with run keeps show ?thesis by blast
  qed
  have alive: "(\<forall>keepAddress. \<exists>res. signDigest e keepAddress ''deadbeef'' = Alive res) \<longrightarrow>
    (\<exists>rows s'. processKeeps e keepRows s = Alive (Inr rows, s') \<and>
      set (map (\<lambda>r. map_of r ''keep'') rows) =
        {Some (JStr keep) | keep.
           keep \<noteq> [] \<and> (\<exists>r \<in> set keepRows. map_of r ''keep'' = Some keep)})"
  proof
    assume "\<forall>keepAddress. \<exists>res. signDigest e keepAddress ''deadbeef'' = Alive res"
    from processKeeps_alive [OF this, of keepRows s] obtain rows s'
      where "processKeeps e keepRows s = Alive (Inr rows, s')"
        and "list_all2 keepRow (keepSet keepRows) rows" by blast
    with keeps show "\<exists>rows s'. processKeeps e keepRows s = Alive (Inr rows, s') \<and>
      set (map (\<lambda>r. map_of r ''keep'') rows) =
        {Some (JStr keep) | keep.
           keep \<noteq> [] \<and> (\<exists>r \<in> set keepRows. map_of r ''keep'' = Some keep)}"
      by blast
  qed
  show ?thesis
    apply (intro conjI)
       apply (fact dropped)
      apply (fact set_keepSet)
     apply (fact resolved)
    apply (fact alive)
    done
qed

theorem rows_without_keep_are_dropped_witness:
  "map_of [(''keep'', [])] ''keep'' = Some [] \<and>
   (\<forall>keepAddress. \<exists>res. signDigest (sampleEnv ''0xBE'' 7) keepAddress ''deadbeef'' = Alive res) \<and>
   keepSet [[(''keep'', ''0xK2'')], [(''keep'', [])], [(''keep'', ''0xK2'')]] = [''0xK2''] \<and>
   processKeeps (sampleEnv ''0xBE'' 7)
      [[(''keep'', ''0xK2'')], [(''keep'', [])], [(''keep'', ''0xK2'')]] initialState =
   processKeeps (sampleEnv ''0xBE'' 7)
      [[(''keep'', ''0xK2'')], [(''keep'', ''0xK2'')]] initialState \<and>
   processKeeps (sampleEnv ''0xBE'' 7)
      [[(''keep'', ''0xK2'')], [(''keep'', ''0xK2'')]] initialState =
     Alive (Inr [[(''keep'', JStr ''0xK2''), (''error'', JStr ''missing key shares'')]],
            initialState) \<and>
   (\<exists>rows s'. processKeeps (sampleEnv ''0xBE'' 7)
        [[(''keep'', ''0xK2'')], [(''keep'', ''0xK2'')]] initialState = Alive (Inr rows, s') \<and>
      set (map (\<lambda>r. map_of r ''keep'') rows) =
        {Some (JStr keep) | keep.
           keep \<noteq> [] \<and> (\<exists>r \<in> set [[(''keep'', ''0xK2'')], [(''keep'', ''0xK2'')]].
              map_of r ''keep'' = Some keep)})"
proof -
  let ?e = "sampleEnv ''0xBE'' 7"
  have missing: "map_of [(''keep'', [])] ''keep'' = None \<or>
      map_of [(''keep'', [])] ''keep'' = Some ([] :: string)"
    by simp
  have signer: "\<forall>keepAddress. \<exists>res. signDigest ?e keepAddress ''deadbeef'' = Alive res"
    by (simp add: signDigest_def sampleEnv_def Let_def)
  have keeps: "keepSet [[(''keep'', ''0xK2'')], [(''keep'', ''0xK2'')]] = [''0xK2'']"
    by (simp add: keepSet_def setAdd_def truthyStr_def)
  have batch: "processKeeps ?e [[(''keep'', ''0xK2'')], [(''keep'', ''0xK2'')]] initialState =
     Alive (Inr [[(''keep'', JStr ''0xK2''), (''error'', JStr ''missing key shares'')]],
            initialState)"
    by (simp add: batch_defs pipeline_defs sampleEnv_def)
  note t = rows_without_keep_are_dropped
         [of "[(''keep'', [])]" "[[(''keep'', ''0xK2'')]]" "[[(''keep'', ''0xK2'')]]"
             ?e initialState "[[(''keep'', ''0xK2'')], [(''keep'', ''0xK2'')]]"]
  from t [THEN conjunct1, rule_format, OF missing]
       t [THEN conjunct2, THEN conjunct2, THEN conjunct2, THEN mp, OF signer]
       signer keeps batch
  show ?thesis by simp
qed

section \<open>The delegation cache under a schedule\<close>

lemma beneficiaryOf_hit:
  "cachedBeneficiary s a = Some p \<Longrightarrow> beneficiaryOf e a s = (p, s)"
  by (simp add: beneficiaryOf_def)

lemma beneficiaryOf_stores:
  "cachedBeneficiary (snd (beneficiaryOf e a s)) a = Some (fst (beneficiaryOf e a s))"
  by (auto simp: beneficiaryOf_def cachedBeneficiary_def Let_def split: option.splits)

lemma beneficiaryOf_keeps_beneficiary:
  "cachedBeneficiary s b = Some p \<Longrightarrow> cachedBeneficiary (snd (beneficiaryOf e a s)) b = Some p"
  by (auto simp: beneficiaryOf_def cachedBeneficiary_def Let_def split: option.splits)

lemma beneficiaryOf_keeps_owner:
  "cachedOwner (snd (beneficiaryOf e a s)) b = cachedOwner s b"
  by (auto simp: beneficiaryOf_def cachedBeneficiary_def cachedOwner_def cacheEntry_def Let_def
           split: option.splits)

lemma beneficiaryOf_ownerQueries:
  "ownerQueries (snd (beneficiaryOf e a s)) = ownerQueries s"
  by (auto simp: beneficiaryOf_def Let_def split: option.splits)

lemma resume_keeps_beneficiary:
  "cachedBeneficiary (snd (deepOwnerOf_resume e a s)) b = cachedBeneficiary s b"
  by (auto simp: deepOwnerOf_resume_def cachedBeneficiary_def cacheEntry_def Let_def
           split: option.splits sum.splits)

lemma resume_beneficiaryQueries:
  "beneficiaryQueries (snd (deepOwnerOf_resume e a s)) = beneficiaryQueries s"
  by (auto simp: deepOwnerOf_resume_def Let_def split: sum.splits)

lemma deepOwnerOf_hit:
  "cachedOwner s a = Some p \<Longrightarrow> deepOwnerOf e a s = (p, s)"
  by (simp add: deepOwnerOf_def)

lemma deepOwnerOf_stores:
  "contractsFromWeb3 e = Inr () \<Longrightarrow>
   cachedOwner (snd (deepOwnerOf e a s)) a = Some (fst (deepOwnerOf e a s))"
  by (auto simp: deepOwnerOf_def deepOwnerOf_resume_def cachedOwner_def Let_def
           split: option.splits)

lemma deepOwnerOf_keeps_owner:
  "cachedOwner s b = Some p \<Longrightarrow> cachedOwner (snd (deepOwnerOf e a s)) b = Some p"
  by (auto simp: deepOwnerOf_def deepOwnerOf_resume_def cachedOwner_def cacheEntry_def Let_def
           split: option.splits sum.splits)

lemma beneficiaryOf_beneficiaryLogSound:
  assumes "beneficiaryLogSound s"
  shows "beneficiaryLogSound (snd (beneficiaryOf e a s))"
proof (cases "cachedBeneficiary s a")
  case (Some p)
  with assms show ?thesis by (simp add: beneficiaryOf_hit)
next
  case None
  with assms have new: "a \<notin> set (beneficiaryQueries s)"
    by (auto simp: beneficiaryLogSound_def)
  from None have log: "beneficiaryQueries (snd (beneficiaryOf e a s)) = beneficiaryQueries s @ [a]"
    by (simp add: beneficiaryOf_def Let_def)
  have "cachedBeneficiary (snd (beneficiaryOf e a s)) b \<noteq> None"
    if "b \<in> set (beneficiaryQueries s @ [a])" for b
  proof (cases "b = a")
    case True
    then show ?thesis using beneficiaryOf_stores [of e a s] by simp
  next
    case False
    with that assms obtain p where "cachedBeneficiary s b = Some p"
      by (auto simp: beneficiaryLogSound_def)
    then show ?thesis using beneficiaryOf_keeps_beneficiary by simp
  qed
  with assms new log show ?thesis by (simp add: beneficiaryLogSound_def)
qed

lemma resume_beneficiaryLogSound:
  "beneficiaryLogSound s \<Longrightarrow> beneficiaryLogSound (snd (deepOwnerOf_resume e a s))"
  by (simp add: beneficiaryLogSound_def resume_keeps_beneficiary resume_beneficiaryQueries)

lemma deliver_beneficiaryLogSound:
  "beneficiaryLogSound (fst c) \<Longrightarrow> beneficiaryLogSound (fst (deliver e c ev))"
  by (cases c; cases ev)
     (auto simp: beneficiaryOf_beneficiaryLogSound resume_beneficiaryLogSound split: option.splits)

lemma foldl_deliver_beneficiaryLogSound:
  "beneficiaryLogSound (fst c) \<Longrightarrow> beneficiaryLogSound (fst (foldl (deliver e) c events))"
  by (induction events arbitrary: c) (simp_all add: deliver_beneficiaryLogSound)

lemma deliver_keeps_beneficiary:
  "cachedBeneficiary (fst c) b = Some p \<Longrightarrow> cachedBeneficiary (fst (deliver e c ev)) b = Some p"
  by (cases c; cases ev)
     (auto simp: beneficiaryOf_keeps_beneficiary resume_keeps_beneficiary split: option.splits)

lemma foldl_deliver_keeps_beneficiary:
  "cachedBeneficiary (fst c) b = Some p \<Longrightarrow>
   cachedBeneficiary (fst (foldl (deliver e) c events)) b = Some p"
  by (induction events arbitrary: c) (simp_all add: deliver_keeps_beneficiary)

lemma beneficiaryOf_ownerLogSound:
  "ownerLogSound s \<Longrightarrow> ownerLogSound (snd (beneficiaryOf e a s))"
  by (simp add: ownerLogSound_def beneficiaryOf_keeps_owner beneficiaryOf_ownerQueries)

lemma deepOwnerOf_ownerLogSound:
  assumes "ownerLogSound s"
  shows "ownerLogSound (snd (deepOwnerOf e a s))"
proof (cases "cachedOwner s a")
  case (Some p)
  with assms show ?thesis by (simp add: deepOwnerOf_hit)
next
  case None
  show ?thesis
  proof (cases "contractsFromWeb3 e")
    case (Inl x)
    with None assms show ?thesis by (simp add: deepOwnerOf_def deepOwnerOf_resume_def)
  next
    case (Inr u)
    from None assms have new: "a \<notin> set (ownerQueries s)"
      by (auto simp: ownerLogSound_def)
    from None Inr have log: "ownerQueries (snd (deepOwnerOf e a s)) = ownerQueries s @ [a]"
      by (simp add: deepOwnerOf_def deepOwnerOf_resume_def Let_def)
    have "cachedOwner (snd (deepOwnerOf e a s)) b \<noteq> None"
      if "b \<in> set (ownerQueries s @ [a])" for b
    proof (cases "b = a")
      case True
      then show ?thesis using deepOwnerOf_stores [of e a s] Inr by simp
    next
      case False
      with that assms obtain p where "cachedOwner s b = Some p"
        by (auto simp: ownerLogSound_def)
      then show ?thesis using deepOwnerOf_keeps_owner by simp
    qed
    with assms new log show ?thesis by (simp add: ownerLogSound_def)
  qed
qed

lemma initialState_sound: "beneficiaryLogSound initialState \<and> ownerLogSound initialState"
  by (simp add: beneficiaryLogSound_def ownerLogSound_def initialState_def)

lemma resume_keeps_owner_other:
  "b \<noteq> a \<Longrightarrow> cachedOwner (snd (deepOwnerOf_resume e a s)) b = cachedOwner s b"
  by (auto simp: deepOwnerOf_resume_def cachedOwner_def Let_def split: sum.splits)

lemma resume_owner:
  "cachedOwner (snd (deepOwnerOf_resume e a s)) a =
     (case contractsFromWeb3 e of Inl x \<Rightarrow> cachedOwner s a | Inr u \<Rightarrow> Some (lookupOwner e a))"
  by (auto simp: deepOwnerOf_resume_def cachedOwner_def Let_def split: sum.splits)

lemma resume_ownerQueries:
  "ownerQueries (snd (deepOwnerOf_resume e a s)) =
     (case contractsFromWeb3 e of Inl x \<Rightarrow> ownerQueries s | Inr u \<Rightarrow> ownerQueries s @ [a])"
  by (auto simp: deepOwnerOf_resume_def Let_def split: sum.splits)

lemma resume_waitingSound:
  assumes "waitingSound (s, waiting)" and "a \<in> set waiting"
  shows "waitingSound (snd (deepOwnerOf_resume e a s), remove1 a waiting)"
proof -
  from assms have sound: "ownerLogSound s" and dist: "distinct waiting"
    and none: "\<forall>b \<in> set waiting. cachedOwner s b = None"
    by (simp_all add: waitingSound_def)
  from none assms(2) have a: "cachedOwner s a = None" by simp
  with sound have new: "a \<notin> set (ownerQueries s)" by (auto simp: ownerLogSound_def)
  let ?s = "snd (deepOwnerOf_resume e a s)"
  have others: "cachedOwner ?s b = cachedOwner s b" if "b \<noteq> a" for b
    using that by (rule resume_keeps_owner_other)
  have rest: "\<forall>b \<in> set (remove1 a waiting). cachedOwner ?s b = None"
    using dist none others by auto
  have "ownerLogSound ?s"
  proof (cases "contractsFromWeb3 e")
    case (Inl x)
    then have "?s = s" by (simp add: deepOwnerOf_resume_def)
    with sound show ?thesis by simp
  next
    case (Inr u)
    then have log: "ownerQueries ?s = ownerQueries s @ [a]"
      and stored: "cachedOwner ?s a \<noteq> None"
      by (simp_all add: resume_ownerQueries resume_owner)
    have "cachedOwner ?s b \<noteq> None" if "b \<in> set (ownerQueries s @ [a])" for b
    proof (cases "b = a")
      case True
      with stored show ?thesis by simp
    next
      case False
      with that sound have "cachedOwner s b \<noteq> None" by (auto simp: ownerLogSound_def)
      with False others show ?thesis by simp
    qed
    with sound new log show ?thesis by (simp add: ownerLogSound_def)
  qed
  with dist rest show ?thesis by (simp add: waitingSound_def)
qed

lemma deliver_waitingSound:
  assumes "waitingSound c"
    and "\<And>a. ev = CallDeepOwnerOf a \<Longrightarrow> a \<notin> set (snd c)"
  shows "waitingSound (deliver e c ev)"
proof (cases c)
  case (Pair s waiting)
  show ?thesis
  proof (cases ev)
    case (CallBeneficiaryOf a)
    with assms(1) Pair show ?thesis
      by (simp add: waitingSound_def beneficiaryOf_ownerLogSound beneficiaryOf_keeps_owner)
  next
    case (CallDeepOwnerOf a)
    with assms(2) Pair have "a \<notin> set waiting" by simp
    with assms(1) Pair CallDeepOwnerOf show ?thesis
      by (auto simp: waitingSound_def split: option.splits)
  next
    case (ResumeDeepOwnerOf a)
    with assms(1) Pair show ?thesis
      using resume_waitingSound [of s waiting a e] by simp
  qed
qed

lemma overlapFree_waitingSound:
  "waitingSound c \<Longrightarrow> overlapFree e c events \<Longrightarrow> waitingSound (foldl (deliver e) c events)"
proof (induction events arbitrary: c)
  case Nil
  then show ?case by simp
next
  case (Cons ev events)
  have "a \<notin> set (snd c)" if "ev = CallDeepOwnerOf a" for a
    using Cons.prems(2) that by simp
  with Cons.prems(1) have "waitingSound (deliver e c ev)"
    by (rule deliver_waitingSound)
  moreover have "overlapFree e (deliver e c ev) events"
    using Cons.prems(2) by (cases ev) simp_all
  ultimately show ?case using Cons.IH by simp
qed

text \<open>An owner that is cached stays cached, whatever happens.\<close>

lemma deliver_keeps_owner_cached:
  "cachedOwner (fst c) a \<noteq> None \<Longrightarrow> cachedOwner (fst (deliver e c ev)) a \<noteq> None"
proof (cases c)
  case (Pair s waiting)
  assume cached: "cachedOwner (fst c) a \<noteq> None"
  show ?thesis
  proof (cases ev)
    case (CallBeneficiaryOf b)
    with cached Pair show ?thesis by (simp add: beneficiaryOf_keeps_owner)
  next
    case (CallDeepOwnerOf b)
    with cached Pair show ?thesis by (simp split: option.splits)
  next
    case (ResumeDeepOwnerOf b)
    show ?thesis
    proof (cases "b = a")
      case True
      with cached Pair ResumeDeepOwnerOf show ?thesis
        by (auto simp: resume_owner split: sum.splits)
    next
      case False
      with cached Pair ResumeDeepOwnerOf show ?thesis
        using resume_keeps_owner_other [of a b e s] by auto
    qed
  qed
qed

lemma foldl_deliver_keeps_owner_cached:
  "cachedOwner (fst c) a \<noteq> None \<Longrightarrow> cachedOwner (fst (foldl (deliver e) c events)) a \<noteq> None"
proof (induction events arbitrary: c)
  case Nil
  then show ?case by simp
next
  case (Cons ev events)
  from Cons.prems have "cachedOwner (fst (deliver e c ev)) a \<noteq> None"
    by (rule deliver_keeps_owner_cached)
  then have "cachedOwner (fst (foldl (deliver e) (deliver e c ev) events)) a \<noteq> None"
    by (rule Cons.IH)
  then show ?case by simp
qed

text \<open>It keeps its value while no call for the signer waits.\<close>

lemma deliver_keeps_owner:
  assumes "cachedOwner (fst c) a = Some p" and "a \<notin> set (snd c)"
  shows "cachedOwner (fst (deliver e c ev)) a = Some p \<and> a \<notin> set (snd (deliver e c ev))"
proof (cases c)
  case (Pair s waiting)
  show ?thesis
  proof (cases ev)
    case (CallBeneficiaryOf b)
    with assms Pair show ?thesis by (simp add: beneficiaryOf_keeps_owner)
  next
    case (CallDeepOwnerOf b)
    with assms Pair show ?thesis by (auto split: option.splits)
  next
    case (ResumeDeepOwnerOf b)
    show ?thesis
    proof (cases "b \<in> set waiting")
      case True
      with assms Pair have "a \<noteq> b" by auto
      with assms Pair ResumeDeepOwnerOf True show ?thesis
        using resume_keeps_owner_other [of a b e s] by auto
    next
      case False
      with assms Pair ResumeDeepOwnerOf show ?thesis by simp
    qed
  qed
qed

lemma foldl_deliver_keeps_owner:
  "cachedOwner (fst c) a = Some p \<Longrightarrow> a \<notin> set (snd c) \<Longrightarrow>
   cachedOwner (fst (foldl (deliver e) c events)) a = Some p"
proof (induction events arbitrary: c)
  case Nil
  then show ?case by simp
next
  case (Cons ev events)
  from deliver_keeps_owner [OF Cons.prems, of e ev] show ?case
    using Cons.IH by simp
qed

text \<open>In a run, what is cached as an owner is the promise of the lookup.\<close>

lemma deliver_owner_is_lookup:
  assumes "\<forall>a p. cachedOwner (fst c) a = Some p \<longrightarrow> p = lookupOwner e a"
  shows "\<forall>a p. cachedOwner (fst (deliver e c ev)) a = Some p \<longrightarrow> p = lookupOwner e a"
proof (cases c)
  case (Pair s waiting)
  show ?thesis
  proof (cases ev)
    case (CallBeneficiaryOf b)
    with assms Pair show ?thesis by (simp add: beneficiaryOf_keeps_owner)
  next
    case (CallDeepOwnerOf b)
    with assms Pair show ?thesis by (simp split: option.splits)
  next
    case (ResumeDeepOwnerOf b)
    have "p = lookupOwner e a" if "cachedOwner (snd (deepOwnerOf_resume e b s)) a = Some p" for a p
    proof (cases "a = b")
      case True
      with that assms Pair show ?thesis by (auto simp: resume_owner split: sum.splits)
    next
      case False
      with that assms Pair show ?thesis using resume_keeps_owner_other [of a b e s] by simp
    qed
    with assms Pair ResumeDeepOwnerOf show ?thesis by auto
  qed
qed

lemma foldl_deliver_owner_is_lookup:
  "\<forall>a p. cachedOwner (fst c) a = Some p \<longrightarrow> p = lookupOwner e a \<Longrightarrow>
   \<forall>a p. cachedOwner (fst (foldl (deliver e) c events)) a = Some p \<longrightarrow> p = lookupOwner e a"
proof (induction events arbitrary: c)
  case Nil
  then show ?case by simp
next
  case (Cons ev events)
  from Cons.prems
  have "\<forall>a p. cachedOwner (fst (deliver e c ev)) a = Some p \<longrightarrow> p = lookupOwner e a"
    by (rule deliver_owner_is_lookup)
  then have "\<forall>a p. cachedOwner (fst (foldl (deliver e) (deliver e c ev) events)) a = Some p \<longrightarrow>
      p = lookupOwner e a"
    by (rule Cons.IH)
  then show ?case by simp
qed

lemma schedule_owner_is_lookup:
  assumes "cachedOwner (fst (schedule e events)) a = Some p"
  shows "p = lookupOwner e a"
proof -
  have "\<forall>a p. cachedOwner (fst (initialState, [] :: string list)) a = Some p \<longrightarrow>
      p = lookupOwner e a"
    by (simp add: cachedOwner_def initialState_def)
  then have "\<forall>a p. cachedOwner (fst (foldl (deliver e) (initialState, []) events)) a = Some p \<longrightarrow>
      p = lookupOwner e a"
    by (rule foldl_deliver_owner_is_lookup)
  with assms show ?thesis by (simp add: schedule_def)
qed

lemma initialState_waitingSound: "waitingSound (initialState, [])"
  using initialState_sound by (simp add: waitingSound_def)

text \<open>
  C5, as stated, fails for \<^verbatim>\<open>deepOwnerOf\<close>: two calls for one signer that overlap. Both
  start on the empty cache and wait at the \<^verbatim>\<open>await\<close>; each then issues its own
  \<^verbatim>\<open>lookupOwner\<close>.
\<close>

theorem overlapping_deepOwnerOf_queries_twice:
  "schedule (sampleEnv ''0x0D'' 7)
     [CallDeepOwnerOf ''0xA1'', CallDeepOwnerOf ''0xA1''] = (initialState, [''0xA1'', ''0xA1'']) \<and>
   ownerQueries (fst (schedule (sampleEnv ''0x0D'' 7)
     [CallDeepOwnerOf ''0xA1'', CallDeepOwnerOf ''0xA1'',
      ResumeDeepOwnerOf ''0xA1'', ResumeDeepOwnerOf ''0xA1''])) = [''0xA1'', ''0xA1'']"
  by (simp add: schedule_def cachedOwner_def deepOwnerOf_resume_def cacheEntry_def
      initialState_def sampleEnv_def Let_def)

text \<open>
  C5, amended. \<^verbatim>\<open>beneficiaryOf\<close> issues at most one query for a signer in a run,
  however the calls are interleaved: its call stores the promise of the query under the
  signer, and every later call for the signer returns that promise and leaves the state as
  it is. \<^verbatim>\<open>deepOwnerOf\<close> issues at most one lookup for a signer in a run in which no
  call for a signer starts while another call for the same signer waits at its
  \<^verbatim>\<open>await\<close>; calls for different signers may overlap. A call that gets the contracts
  stores the promise of its lookup under the signer. Once the owner of a signer is cached,
  every later call for the signer returns a cached promise and leaves the state as it is,
  under every interleaving: the promise first cached when no call for the signer waits,
  and in any case the promise of the lookup for the signer.
\<close>

theorem delegation_cache_queries:
  "distinct (beneficiaryQueries (fst (schedule e events))) \<and>
   cachedBeneficiary (snd (beneficiaryOf e a s)) a = Some (fst (beneficiaryOf e a s)) \<and>
   (cachedBeneficiary s a = Some p \<longrightarrow>
      beneficiaryOf e' a (fst (foldl (deliver e) (s, waiting) events)) =
        (p, fst (foldl (deliver e) (s, waiting) events))) \<and>
   (overlapFree e (initialState, []) events \<longrightarrow>
      distinct (ownerQueries (fst (schedule e events)))) \<and>
   (contractsFromWeb3 e = Inr () \<longrightarrow>
      cachedOwner (snd (deepOwnerOf e a s)) a = Some (fst (deepOwnerOf e a s))) \<and>
   (cachedOwner s a \<noteq> None \<longrightarrow>
      (\<exists>q. deepOwnerOf e' a (fst (foldl (deliver e) (s, waiting) events)) =
        (q, fst (foldl (deliver e) (s, waiting) events)))) \<and>
   (cachedOwner s a = Some p \<and> a \<notin> set waiting \<longrightarrow>
      deepOwnerOf e' a (fst (foldl (deliver e) (s, waiting) events)) =
        (p, fst (foldl (deliver e) (s, waiting) events))) \<and>
   (cachedOwner (fst (schedule e events)) a = Some p \<longrightarrow> p = lookupOwner e a)"
proof (intro conjI impI)
  have "beneficiaryLogSound (fst (schedule e events))"
    unfolding schedule_def
    using initialState_sound by (intro foldl_deliver_beneficiaryLogSound) simp
  then show "distinct (beneficiaryQueries (fst (schedule e events)))"
    by (simp add: beneficiaryLogSound_def)
next
  show "cachedBeneficiary (snd (beneficiaryOf e a s)) a = Some (fst (beneficiaryOf e a s))"
    by (rule beneficiaryOf_stores)
next
  assume "cachedBeneficiary s a = Some p"
  then have "cachedBeneficiary (fst (foldl (deliver e) (s, waiting) events)) a = Some p"
    by (intro foldl_deliver_keeps_beneficiary) simp
  then show "beneficiaryOf e' a (fst (foldl (deliver e) (s, waiting) events)) =
        (p, fst (foldl (deliver e) (s, waiting) events))"
    by (rule beneficiaryOf_hit)
next
  assume "overlapFree e (initialState, []) events"
  with initialState_waitingSound
  have "waitingSound (foldl (deliver e) (initialState, []) events)"
    by (rule overlapFree_waitingSound)
  then show "distinct (ownerQueries (fst (schedule e events)))"
    by (simp add: schedule_def waitingSound_def ownerLogSound_def)
next
  assume "contractsFromWeb3 e = Inr ()"
  then show "cachedOwner (snd (deepOwnerOf e a s)) a = Some (fst (deepOwnerOf e a s))"
    by (rule deepOwnerOf_stores)
next
  assume "cachedOwner s a \<noteq> None"
  then have "cachedOwner (fst (foldl (deliver e) (s, waiting) events)) a \<noteq> None"
    by (intro foldl_deliver_keeps_owner_cached) simp
  then obtain q where "cachedOwner (fst (foldl (deliver e) (s, waiting) events)) a = Some q"
    by auto
  then have "deepOwnerOf e' a (fst (foldl (deliver e) (s, waiting) events)) =
        (q, fst (foldl (deliver e) (s, waiting) events))"
    by (rule deepOwnerOf_hit)
  then show "\<exists>q. deepOwnerOf e' a (fst (foldl (deliver e) (s, waiting) events)) =
        (q, fst (foldl (deliver e) (s, waiting) events))"
    by blast
next
  assume "cachedOwner s a = Some p \<and> a \<notin> set waiting"
  then have "cachedOwner (fst (foldl (deliver e) (s, waiting) events)) a = Some p"
    by (intro foldl_deliver_keeps_owner) simp_all
  then show "deepOwnerOf e' a (fst (foldl (deliver e) (s, waiting) events)) =
        (p, fst (foldl (deliver e) (s, waiting) events))"
    by (rule deepOwnerOf_hit)
next
  assume "cachedOwner (fst (schedule e events)) a = Some p"
  then show "p = lookupOwner e a" by (rule schedule_owner_is_lookup)
qed

lemmas cache_defs =
  schedule_def cachedOwner_def cachedBeneficiary_def beneficiaryOf_def deepOwnerOf_def
  deepOwnerOf_resume_def cacheEntry_def initialState_def sampleEnv_def Let_def

theorem delegation_cache_queries_witness:
  "overlapFree (sampleEnv ''0x0D'' 7) (initialState, [])
      [CallDeepOwnerOf ''0xA1'', CallDeepOwnerOf ''0xA2'', CallBeneficiaryOf ''0xA1'',
       ResumeDeepOwnerOf ''0xA2'', ResumeDeepOwnerOf ''0xA1'', CallDeepOwnerOf ''0xA1'',
       CallBeneficiaryOf ''0xA1'', CallDeepOwnerOf ''0xA2''] \<and>
   schedule (sampleEnv ''0x0D'' 7) [CallDeepOwnerOf ''0xA1'', CallDeepOwnerOf ''0xA2''] =
     (initialState, [''0xA1'', ''0xA2'']) \<and>
   ownerQueries (fst (schedule (sampleEnv ''0x0D'' 7)
      [CallDeepOwnerOf ''0xA1'', CallDeepOwnerOf ''0xA2'', CallBeneficiaryOf ''0xA1'',
       ResumeDeepOwnerOf ''0xA2'', ResumeDeepOwnerOf ''0xA1'', CallDeepOwnerOf ''0xA1'',
       CallBeneficiaryOf ''0xA1'', CallDeepOwnerOf ''0xA2''])) = [''0xA2'', ''0xA1''] \<and>
   distinct (ownerQueries (fst (schedule (sampleEnv ''0x0D'' 7)
      [CallDeepOwnerOf ''0xA1'', CallDeepOwnerOf ''0xA2'', CallBeneficiaryOf ''0xA1'',
       ResumeDeepOwnerOf ''0xA2'', ResumeDeepOwnerOf ''0xA1'', CallDeepOwnerOf ''0xA1'',
       CallBeneficiaryOf ''0xA1'', CallDeepOwnerOf ''0xA2'']))) \<and>
   beneficiaryQueries (fst (schedule (sampleEnv ''0x0D'' 7)
      [CallDeepOwnerOf ''0xA1'', CallDeepOwnerOf ''0xA2'', CallBeneficiaryOf ''0xA1'',
       ResumeDeepOwnerOf ''0xA2'', ResumeDeepOwnerOf ''0xA1'', CallDeepOwnerOf ''0xA1'',
       CallBeneficiaryOf ''0xA1'', CallDeepOwnerOf ''0xA2''])) = [''0xA1''] \<and>
   contractsFromWeb3 (sampleEnv ''0x0D'' 7) = Inr () \<and>
   cachedOwner (snd (deepOwnerOf (sampleEnv ''0x0D'' 7) ''0xA1'' initialState)) ''0xA1'' =
     Some (Inr ''0x0d'') \<and>
   cachedBeneficiary (snd (beneficiaryOf (sampleEnv ''0x0D'' 7) ''0xA1'' initialState)) ''0xA1'' =
     Some (Inr ''0xbe'') \<and>
   fst (deepOwnerOf (sampleEnv ''0x0D'' 1) ''0xA1''
      (fst (foldl (deliver (sampleEnv ''0x0D'' 7))
         (snd (deepOwnerOf (sampleEnv ''0x0D'' 7) ''0xA1'' initialState), [''0xA2'', ''0xA3''])
         [CallDeepOwnerOf ''0xA1'', ResumeDeepOwnerOf ''0xA3'', CallBeneficiaryOf ''0xA2'',
          ResumeDeepOwnerOf ''0xA2'']))) = Inr ''0x0d'' \<and>
   fst (beneficiaryOf (sampleEnv ''0x0D'' 1) ''0xA1''
      (fst (foldl (deliver (sampleEnv ''0x0D'' 7))
         (snd (beneficiaryOf (sampleEnv ''0x0D'' 7) ''0xA1'' initialState), [''0xA2'', ''0xA3''])
         [CallDeepOwnerOf ''0xA1'', ResumeDeepOwnerOf ''0xA3'', CallBeneficiaryOf ''0xA2'',
          ResumeDeepOwnerOf ''0xA2'']))) = Inr ''0xbe''"
proof -
  let ?e = "sampleEnv ''0x0D'' 7"
  let ?events = "[CallDeepOwnerOf ''0xA1'', CallDeepOwnerOf ''0xA2'', CallBeneficiaryOf ''0xA1'',
       ResumeDeepOwnerOf ''0xA2'', ResumeDeepOwnerOf ''0xA1'', CallDeepOwnerOf ''0xA1'',
       CallBeneficiaryOf ''0xA1'', CallDeepOwnerOf ''0xA2'']"
  let ?later = "[CallDeepOwnerOf ''0xA1'', ResumeDeepOwnerOf ''0xA3'', CallBeneficiaryOf ''0xA2'',
          ResumeDeepOwnerOf ''0xA2'']"
  have free: "overlapFree ?e (initialState, []) ?events"
    by (simp add: cache_defs)
  have overlap: "schedule ?e [CallDeepOwnerOf ''0xA1'', CallDeepOwnerOf ''0xA2''] =
      (initialState, [''0xA1'', ''0xA2''])"
    by (simp add: cache_defs)
  have contracts: "contractsFromWeb3 ?e = Inr ()" by (simp add: sampleEnv_def)
  have owners: "ownerQueries (fst (schedule ?e ?events)) = [''0xA2'', ''0xA1'']"
    by (simp add: cache_defs)
  have beneficiaries: "beneficiaryQueries (fst (schedule ?e ?events)) = [''0xA1'']"
    by (simp add: cache_defs)
  have ow: "fst (deepOwnerOf ?e ''0xA1'' initialState) = Inr ''0x0d''"
    by (simp add: cache_defs)
  have be: "fst (beneficiaryOf ?e ''0xA1'' initialState) = Inr ''0xbe''"
    by (simp add: cache_defs)
  note t = delegation_cache_queries
    [where e = ?e and events = ?events and a = "''0xA1''" and s = initialState]
  have once: "distinct (ownerQueries (fst (schedule ?e ?events)))"
    using t free by blast
  have stored: "cachedOwner (snd (deepOwnerOf ?e ''0xA1'' initialState)) ''0xA1'' = Some (Inr ''0x0d'')"
    using t contracts ow by simp
  have stored': "cachedBeneficiary (snd (beneficiaryOf ?e ''0xA1'' initialState)) ''0xA1'' = Some (Inr ''0xbe'')"
    using t be by simp
  have waits: "''0xA1'' \<notin> set [''0xA2'', ''0xA3'']" by simp
  have hit: "fst (deepOwnerOf (sampleEnv ''0x0D'' 1) ''0xA1''
      (fst (foldl (deliver ?e) (snd (deepOwnerOf ?e ''0xA1'' initialState), [''0xA2'', ''0xA3''])
         ?later))) = Inr ''0x0d''"
    using delegation_cache_queries
      [where e = ?e and events = ?later and a = "''0xA1''"
         and s = "snd (deepOwnerOf ?e ''0xA1'' initialState)" and p = "Inr ''0x0d''"
         and e' = "sampleEnv ''0x0D'' 1" and waiting = "[''0xA2'', ''0xA3'']"] stored waits
    by simp
  have hit': "fst (beneficiaryOf (sampleEnv ''0x0D'' 1) ''0xA1''
      (fst (foldl (deliver ?e) (snd (beneficiaryOf ?e ''0xA1'' initialState), [''0xA2'', ''0xA3''])
         ?later))) = Inr ''0xbe''"
    using delegation_cache_queries
      [where e = ?e and events = ?later and a = "''0xA1''"
         and s = "snd (beneficiaryOf ?e ''0xA1'' initialState)" and p = "Inr ''0xbe''"
         and e' = "sampleEnv ''0x0D'' 1" and waiting = "[''0xA2'', ''0xA3'']"] stored'
    by simp
  from free overlap owners once beneficiaries contracts stored stored' hit hit'
  show ?thesis by simp
qed

section \<open>Where the code departs from what it documents\<close>

text \<open>
  What \<open>checkSigner\<close> decides on a fresh cache, when the beneficiary and the owner can
  be looked up: it throws exactly when the recovered address is not the beneficiary and
  is the owner.
\<close>

lemma checkSigner_fresh:
  assumes "cachedBeneficiary s a = None" and "cachedOwner s a = None"
    and "tokenStaking_beneficiaryOf e a = Inr b"
    and "contractsFromWeb3 e = Inr ()" and "lookupOwner e a = Inr ow"
  shows "fst (checkSigner e a recoveredAddress s) =
     (if toLowerCase recoveredAddress \<noteq> toLowerCase b \<and>
         toLowerCase recoveredAddress = toLowerCase ow
      then Inl (newError (''Beneficiary address for '' @ a @
                  '' was not signed by operator owner or beneficiary.''))
      else Inr ())"
proof -
  obtain s1 where b1: "beneficiaryOf e a s = (Inr b, s1)"
    using assms(1,3) by (simp add: beneficiaryOf_def Let_def)
  then have "cachedOwner s1 a = None"
    using beneficiaryOf_keeps_owner [of e a s a] assms(2) by simp
  then obtain s2 where "deepOwnerOf e a s1 = (Inr ow, s2)"
    using assms(4,5) by (simp add: deepOwnerOf_def deepOwnerOf_resume_def Let_def)
  with b1 show ?thesis by (simp add: checkSigner_def)
qed

text \<open>
  C1, on the code: the three members of the sample keep have the beneficiary \<open>0xbe\<close>
  and the owner \<open>0x0d\<close>. An attestation signed by the owner \<open>0x0D\<close> is rejected with
  the policy error; one signed by \<open>0xEE\<close>, neither beneficiary nor owner, is accepted
  and yields its destination; one signed by the beneficiary \<open>0xBE\<close> is accepted.
\<close>

theorem readBeneficiary_owner_rejected_stranger_accepted:
  "fst (readBeneficiary (sampleEnv ''0x0D'' 7) ''0xA1'' initialState) =
     Inl ''Error: Beneficiary address for 0xA1 was not signed by operator owner or beneficiary.'' \<and>
   fst (readBeneficiary (sampleEnv ''0xEE'' 7) ''0xA1'' initialState) =
     Inr (Some ''1BoatSLRHtKNngkdXEeobR76b53LETtpyT'') \<and>
   fst (readBeneficiary (sampleEnv ''0xBE'' 7) ''0xA1'' initialState) =
     Inr (Some ''1BoatSLRHtKNngkdXEeobR76b53LETtpyT'')"
  by (simp add: attestation_defs truthyStr_def orElse_def sampleEnv_def initialState_def)

text \<open>
  C6, on the code: the first query for \<open>0xA1\<close> fails and its rejected promise is
  stored. A later call, made when the chain client would answer, returns the stored
  rejection and issues no query: the log still holds the one query. The same holds for
  \<^verbatim>\<open>deepOwnerOf\<close> and a failing \<^verbatim>\<open>lookupOwner\<close>.
\<close>

theorem failed_query_is_replayed:
  "fst (beneficiaryOf
          ((sampleEnv ''0xBE'' 7)\<lparr>tokenStaking_beneficiaryOf := \<lambda>a. Inl ''Error: connection lost''\<rparr>)
          ''0xA1'' initialState) = Inl ''Error: connection lost'' \<and>
   tokenStaking_beneficiaryOf (sampleEnv ''0xBE'' 7) ''0xA1'' = Inr ''0xbe'' \<and>
   fst (beneficiaryOf (sampleEnv ''0xBE'' 7) ''0xA1''
          (snd (beneficiaryOf
            ((sampleEnv ''0xBE'' 7)\<lparr>tokenStaking_beneficiaryOf := \<lambda>a. Inl ''Error: connection lost''\<rparr>)
            ''0xA1'' initialState))) = Inl ''Error: connection lost'' \<and>
   beneficiaryQueries (snd (beneficiaryOf (sampleEnv ''0xBE'' 7) ''0xA1''
          (snd (beneficiaryOf
            ((sampleEnv ''0xBE'' 7)\<lparr>tokenStaking_beneficiaryOf := \<lambda>a. Inl ''Error: connection lost''\<rparr>)
            ''0xA1'' initialState)))) = [''0xA1''] \<and>
   fst (deepOwnerOf
          ((sampleEnv ''0xBE'' 7)\<lparr>lookupOwner := \<lambda>a. Inl ''Error: connection lost''\<rparr>)
          ''0xA1'' initialState) = Inl ''Error: connection lost'' \<and>
   lookupOwner (sampleEnv ''0xBE'' 7) ''0xA1'' = Inr ''0x0d'' \<and>
   fst (deepOwnerOf (sampleEnv ''0xBE'' 7) ''0xA1''
          (snd (deepOwnerOf
            ((sampleEnv ''0xBE'' 7)\<lparr>lookupOwner := \<lambda>a. Inl ''Error: connection lost''\<rparr>)
            ''0xA1'' initialState))) = Inl ''Error: connection lost'' \<and>
   ownerQueries (snd (deepOwnerOf (sampleEnv ''0xBE'' 7) ''0xA1''
          (snd (deepOwnerOf
            ((sampleEnv ''0xBE'' 7)\<lparr>lookupOwner := \<lambda>a. Inl ''Error: connection lost''\<rparr>)
            ''0xA1'' initialState)))) = [''0xA1'']"
  by (simp add: beneficiaryOf_def deepOwnerOf_def deepOwnerOf_resume_def cachedBeneficiary_def
      cachedOwner_def cacheEntry_def Let_def sampleEnv_def initialState_def)

text \<open>
  C7, on the code: the file read for a signer is the lower-cased address followed by
  \<open>.json\<close>, under the beneficiary directory (\<open>beneficiaries\<close> when none is
  configured). No prefix stands before the address: it is not the
  \<^verbatim>\<open>beneficiary-<address>.json\<close> that the header comment of the program names.
\<close>

theorem beneficiaryFile_has_no_prefix:
  "beneficiaryFile e a =
     orElse (beneficiaryDirectory e) ''beneficiaries'' @ ''/'' @ toLowerCase a @ ''.json'' \<and>
   beneficiaryFile e a \<noteq>
     orElse (beneficiaryDirectory e) ''beneficiaries'' @ ''/beneficiary-'' @ toLowerCase a @ ''.json'' \<and>
   beneficiaryFile (sampleEnv ''0xBE'' 7) ''0xAbCdEF01'' = ''beneficiaries/0xabcdef01.json''"
proof (intro conjI)
  show "beneficiaryFile e a =
     orElse (beneficiaryDirectory e) ''beneficiaries'' @ ''/'' @ toLowerCase a @ ''.json''"
    by (simp add: beneficiaryFile_def)
next
  have "length (beneficiaryFile e a) \<noteq>
        length (orElse (beneficiaryDirectory e) ''beneficiaries'' @ ''/beneficiary-'' @
                toLowerCase a @ ''.json'')"
    by (simp add: beneficiaryFile_def)
  then show "beneficiaryFile e a \<noteq>
     orElse (beneficiaryDirectory e) ''beneficiaries'' @ ''/beneficiary-'' @ toLowerCase a @ ''.json''"
    by metis
next
  show "beneficiaryFile (sampleEnv ''0xBE'' 7) ''0xAbCdEF01'' = ''beneficiaries/0xabcdef01.json''"
    by (simp add: beneficiaryFile_def orElse_def truthyStr_def toLowerCase_def lowerChar_def
        isUpper_def sampleEnv_def)
qed

section \<open>The liquidation scenario\<close>

lemma beneficiaryOf_agrees:
  assumes "cacheAgrees e s"
  shows "fst (beneficiaryOf e a s) = tokenStaking_beneficiaryOf e a \<and>
         cacheAgrees e (snd (beneficiaryOf e a s))"
proof (cases "cachedBeneficiary s a")
  case (Some p)
  with assms show ?thesis by (simp add: beneficiaryOf_hit cacheAgrees_def)
next
  case None
  then have first: "fst (beneficiaryOf e a s) = tokenStaking_beneficiaryOf e a"
    by (simp add: beneficiaryOf_def Let_def)
  have "p = tokenStaking_beneficiaryOf e b"
    if "cachedBeneficiary (snd (beneficiaryOf e a s)) b = Some p" for b p
  proof (cases "b = a")
    case True
    with that first show ?thesis using beneficiaryOf_stores [of e a s] by simp
  next
    case False
    with that None have "cachedBeneficiary s b = Some p"
      by (simp add: beneficiaryOf_def cachedBeneficiary_def Let_def)
    with assms show ?thesis by (simp add: cacheAgrees_def)
  qed
  with first show ?thesis by (simp add: cacheAgrees_def)
qed

lemma deepOwnerOf_cacheAgrees:
  "cacheAgrees e s \<Longrightarrow> cacheAgrees e (snd (deepOwnerOf e' a s))"
proof (cases "cachedOwner s a")
  case (Some p)
  assume "cacheAgrees e s"
  with Some show ?thesis by (simp add: deepOwnerOf_hit)
next
  case None
  assume "cacheAgrees e s"
  with None show ?thesis
    by (simp add: deepOwnerOf_def cacheAgrees_def resume_keeps_beneficiary)
qed

lemma checkSigner_cacheAgrees:
  assumes "cacheAgrees e s"
  shows "cacheAgrees e (snd (checkSigner e a recoveredAddress s))"
proof -
  obtain p s1 where b: "beneficiaryOf e a s = (p, s1)" by (cases "beneficiaryOf e a s")
  with beneficiaryOf_agrees [OF assms, of a] have s1: "cacheAgrees e s1" by simp
  obtain q s2 where d: "deepOwnerOf e a s1 = (q, s2)" by (cases "deepOwnerOf e a s1")
  with deepOwnerOf_cacheAgrees [OF s1, of e a] have "cacheAgrees e s2" by simp
  with b d s1 show ?thesis
    by (auto simp: checkSigner_def split: sum.splits)
qed

lemma checkSigner_beneficiary:
  assumes "cacheAgrees e s" and "tokenStaking_beneficiaryOf e a = Inr b"
    and "toLowerCase recoveredAddress = toLowerCase b"
  shows "fst (checkSigner e a recoveredAddress s) = Inr ()"
proof -
  obtain s1 where "beneficiaryOf e a s = (Inr b, s1)"
    using beneficiaryOf_agrees [OF assms(1), of a] assms(2)
    by (cases "beneficiaryOf e a s") simp
  with assms(3) show ?thesis by (simp add: checkSigner_def)
qed

lemma cacheAgrees_operatorBeneficiaries:
  "cacheAgrees e (s\<lparr>operatorBeneficiaries := m\<rparr>) = cacheAgrees e s"
  by (simp add: cacheAgrees_def cachedBeneficiary_def)

lemma cacheAgrees_startingBlock:
  "cacheAgrees e (s\<lparr>startingBlock := n\<rparr>) = cacheAgrees e s"
  by (simp add: cacheAgrees_def cachedBeneficiary_def)

lemma verifyAttestation_cacheAgrees:
  assumes "cacheAgrees e s"
  shows "cacheAgrees e (snd (verifyAttestation e a jsonContents s))"
proof -
  have "cacheAgrees e (snd (checkSigner e a r s))" for r
    using assms by (rule checkSigner_cacheAgrees)
  then have "\<And>r x s'. checkSigner e a r s = (x, s') \<Longrightarrow> cacheAgrees e s'"
    by (metis snd_conv)
  with assms show ?thesis
    by (auto simp: verifyAttestation_def cacheAgrees_operatorBeneficiaries
             split: option.splits sum.splits prod.splits)
qed

lemma readBeneficiary_cacheAgrees:
  "cacheAgrees e s \<Longrightarrow> cacheAgrees e (snd (readBeneficiary e a s))"
  by (auto simp: readBeneficiary_def verifyAttestation_cacheAgrees split: sum.splits)

lemma matchAll_members:
  "m \<in> set (matchAll re s) \<Longrightarrow> \<exists>t. re t = Some m"
  by (induction re s rule: matchAll.induct) (auto split: option.splits)

lemma extractDestination_nonempty:
  assumes "extractDestination a message = Inr d"
  shows "d \<noteq> []"
proof -
  from assms extractDestination_cases [of a message d]
  have "d \<in> set (matchAll matchAddressAt message) \<or> d \<in> set (matchAll matchPubAt message)"
    by auto
  then obtain t where "matchAddressAt t = Some d \<or> matchPubAt t = Some d"
    using matchAll_members by blast
  then show ?thesis
    using matchAddressAt_prefix [of t d] matchPubAt_prefix [of t d] by auto
qed

lemma beneficiaryAttestationE:
  assumes "beneficiaryAttestation e a"
  obtains contents jsonContents message signature signer b d
    where "fs_stat e (beneficiaryFile e a) = Inr File"
      and "fs_readFile e (beneficiaryFile e a) = Inr contents"
      and "JSON_parse e contents = Inr jsonContents"
      and "msg jsonContents = Some message" and "sig jsonContents = Some signature"
      and "address jsonContents = Some signer"
      and "message \<noteq> []" and "signature \<noteq> []" and "signer \<noteq> []"
      and "accounts_recover e message signature = Inr signer"
      and "tokenStaking_beneficiaryOf e a = Inr b" and "toLowerCase signer = toLowerCase b"
      and "extractDestination a message = Inr d"
proof -
  from assms have stat_ok: "fs_stat e (beneficiaryFile e a) = Inr File"
    by (simp add: beneficiaryAttestation_def split: sum.splits fileKind.splits)
  with assms obtain contents where read_ok: "fs_readFile e (beneficiaryFile e a) = Inr contents"
    by (cases "fs_readFile e (beneficiaryFile e a)") (simp_all add: beneficiaryAttestation_def)
  with assms stat_ok obtain jsonContents where parse: "JSON_parse e contents = Inr jsonContents"
    by (cases "JSON_parse e contents") (simp_all add: beneficiaryAttestation_def)
  from assms stat_ok read_ok parse obtain message signature signer
    where fields: "msg jsonContents = Some message" "sig jsonContents = Some signature"
      "address jsonContents = Some signer"
    by (cases "msg jsonContents"; cases "sig jsonContents"; cases "address jsonContents")
       (simp_all add: beneficiaryAttestation_def)
  from assms stat_ok read_ok parse fields
  have rest: "message \<noteq> [] \<and> signature \<noteq> [] \<and> signer \<noteq> [] \<and>
      accounts_recover e message signature = Inr signer \<and>
      (case tokenStaking_beneficiaryOf e a of
         Inr b \<Rightarrow> toLowerCase signer = toLowerCase b
       | Inl _ \<Rightarrow> False) \<and>
      (length (matchAll matchAddressAt message) = 1 \<or>
       (matchAll matchAddressAt message = [] \<and> length (matchAll matchPubAt message) = 1))"
    by (simp add: beneficiaryAttestation_def)
  then obtain b where ben: "tokenStaking_beneficiaryOf e a = Inr b"
      "toLowerCase signer = toLowerCase b"
    by (cases "tokenStaking_beneficiaryOf e a") simp_all
  from rest have "\<exists>d. matchAll matchAddressAt message = [d] \<or>
      (matchAll matchAddressAt message = [] \<and> matchAll matchPubAt message = [d])"
    by (auto simp: length_Suc_conv)
  then obtain d where dest: "extractDestination a message = Inr d"
    using extractDestination_cases [of a message] by blast
  from stat_ok read_ok parse fields rest ben dest that show thesis by blast
qed

lemma readBeneficiary_signed:
  assumes "cacheAgrees e s" and "beneficiaryAttestation e a"
  shows "\<exists>d s'. readBeneficiary e a s = (Inr (Some d), s') \<and> d \<noteq> [] \<and> cacheAgrees e s'"
proof (cases "truthyStr (operatorBeneficiaries s a)")
  case True
  then obtain d where "operatorBeneficiaries s a = Some d" and "d \<noteq> []"
    by (auto simp: truthyStr_def split: option.splits)
  with True assms(1) show ?thesis by (simp add: readBeneficiary_def)
next
  case False
  from assms(2) obtain contents jsonContents message signature signer b d
    where stat_ok: "fs_stat e (beneficiaryFile e a) = Inr File"
      and read_ok: "fs_readFile e (beneficiaryFile e a) = Inr contents"
      and parse: "JSON_parse e contents = Inr jsonContents"
      and fields: "msg jsonContents = Some message" "sig jsonContents = Some signature"
                  "address jsonContents = Some signer"
      and filled: "message \<noteq> []" "signature \<noteq> []" "signer \<noteq> []"
      and recover: "accounts_recover e message signature = Inr signer"
      and ben: "tokenStaking_beneficiaryOf e a = Inr b" "toLowerCase signer = toLowerCase b"
      and dest: "extractDestination a message = Inr d"
    by (rule beneficiaryAttestationE)
  obtain s1 where check: "checkSigner e a signer s = (Inr (), s1)"
    using checkSigner_beneficiary [OF assms(1) ben] by (cases "checkSigner e a signer s") simp
  with checkSigner_cacheAgrees [OF assms(1), of a signer] have "cacheAgrees e s1" by simp
  then have "cacheAgrees e (s1\<lparr>operatorBeneficiaries := (operatorBeneficiaries s1)(a \<mapsto> d)\<rparr>)"
    by (simp add: cacheAgrees_operatorBeneficiaries)
  moreover have "readBeneficiary e a s =
      (Inr (Some d), s1\<lparr>operatorBeneficiaries := (operatorBeneficiaries s1)(a \<mapsto> d)\<rparr>)"
    using False stat_ok read_ok parse fields filled recover check dest
    by (simp add: readBeneficiary_def verifyAttestation_def)
  ultimately show ?thesis using extractDestination_nonempty [OF dest] by blast
qed

lemma beneficiariesAvailableAndSigned_all:
  assumes "cacheAgrees e s" and "keep_getMembers e keep = Inr (o1, o2, o3)"
    and "beneficiaryAttestation e o1" and "beneficiaryAttestation e o2" and "beneficiaryAttestation e o3"
  shows "\<exists>d1 d2 d3 s'. beneficiariesAvailableAndSigned e keep s =
      (Inr [(''beneficiary1'', JStr d1), (''beneficiary2'', JStr d2), (''beneficiary3'', JStr d3)], s')"
proof -
  obtain d1 s1 where r1: "readBeneficiary e o1 s = (Inr (Some d1), s1)" and c1: "cacheAgrees e s1"
    using readBeneficiary_signed [OF assms(1,3)] by blast
  obtain d2 s2 where r2: "readBeneficiary e o2 s1 = (Inr (Some d2), s2)" and c2: "cacheAgrees e s2"
    using readBeneficiary_signed [OF c1 assms(4)] by blast
  obtain d3 s3 where r3: "readBeneficiary e o3 s2 = (Inr (Some d3), s3)"
    using readBeneficiary_signed [OF c2 assms(5)] by blast
  have "beneficiariesAvailableAndSigned e keep s =
      (Inr [(''beneficiary1'', JStr d1), (''beneficiary2'', JStr d2), (''beneficiary3'', JStr d3)], s3)"
    using assms(2) r1 r2 r3 by (simp add: beneficiariesAvailableAndSigned_def nullable_def)
  then show ?thesis by blast
qed

lemma keepStatusCompleted_cacheAgrees:
  "cacheAgrees e s \<Longrightarrow> cacheAgrees e (snd (keepStatusCompleted e' keep s))"
  by (auto simp: keepStatusCompleted_def referenceBlock_def cacheAgrees_startingBlock
           split: option.splits sum.splits if_splits)

text \<open>
  The cache agrees with the chain client at the start of a run, and every task that
  leaves the process alive keeps it so: \<open>cacheAgrees\<close> holds whenever a task starts.
\<close>

lemma beneficiariesAvailableAndSigned_cacheAgrees:
  assumes "cacheAgrees e s"
  shows "cacheAgrees e (snd (beneficiariesAvailableAndSigned e keep s))"
proof (cases "keep_getMembers e keep")
  case (Inl x)
  with assms show ?thesis by (simp add: beneficiariesAvailableAndSigned_def)
next
  case (Inr members)
  obtain o1 o2 o3 where members: "members = (o1, o2, o3)" by (cases members) auto
  obtain r1 s1 where r1: "readBeneficiary e o1 s = (r1, s1)" by (cases "readBeneficiary e o1 s")
  obtain r2 s2 where r2: "readBeneficiary e o2 s1 = (r2, s2)" by (cases "readBeneficiary e o2 s1")
  obtain r3 s3 where r3: "readBeneficiary e o3 s2 = (r3, s3)" by (cases "readBeneficiary e o3 s2")
  have "cacheAgrees e s1" using readBeneficiary_cacheAgrees [OF assms, of o1] r1 by simp
  then have "cacheAgrees e s2" using readBeneficiary_cacheAgrees [of e s1 o2] r2 by simp
  then have "cacheAgrees e s3" using readBeneficiary_cacheAgrees [of e s2 o3] r3 by simp
  with Inr members r1 r2 r3 show ?thesis
    by (simp add: beneficiariesAvailableAndSigned_def Let_def split: sum.splits)
qed

lemma processStep_cacheAgrees:
  assumes "\<And>r s x s'. cacheAgrees e s \<Longrightarrow> p r s = Alive (x, s') \<Longrightarrow> cacheAgrees e s'"
    and "cacheAgrees e s"
    and "processStep (Alive (y, s)) p = Alive (x', s')"
  shows "cacheAgrees e s'"
proof (cases y)
  case (Inl z)
  with assms(2,3) show ?thesis by (simp add: processStep_def)
next
  case (Inr r)
  show ?thesis
  proof (cases "truthy (map_of r ''error'')")
    case True
    with Inr assms(2,3) show ?thesis by (simp add: processStep_def)
  next
    case False
    show ?thesis
    proof (cases "p r s")
      case (Died z)
      with Inr False assms(3) show ?thesis by (simp add: processStep_def)
    next
      case (Alive result)
      obtain z s1 where result: "result = (z, s1)" by (cases result)
      with Alive assms(1,2) have "cacheAgrees e s1" by blast
      with Inr False Alive result assms(3) show ?thesis
        by (cases z) (simp_all add: processStep_def)
    qed
  qed
qed

lemma foldl_processStep_cacheAgrees:
  assumes "\<And>p r s x s'. p \<in> set ps \<Longrightarrow> cacheAgrees e s \<Longrightarrow> p r s = Alive (x, s') \<Longrightarrow>
             cacheAgrees e s'"
    and "cacheAgrees e s"
    and "foldl processStep (Alive (y, s)) ps = Alive (x', s')"
  shows "cacheAgrees e s'"
  using assms
proof (induction ps arbitrary: y s)
  case Nil
  then show ?case by simp
next
  case (Cons p ps)
  show ?case
  proof (cases "processStep (Alive (y, s)) p")
    case (Died z)
    with Cons.prems(3) show ?thesis by (simp add: foldl_processStep_Died)
  next
    case (Alive result)
    obtain y1 s1 where result: "result = (y1, s1)" by (cases result)
    have step: "\<And>r s x s'. cacheAgrees e s \<Longrightarrow> p r s = Alive (x, s') \<Longrightarrow> cacheAgrees e s'"
      using Cons.prems(1) [of p] by simp
    have first: "processStep (Alive (y, s)) p = Alive (y1, s1)"
      using Alive result by simp
    from step Cons.prems(2) first have c1: "cacheAgrees e s1"
      by (rule processStep_cacheAgrees)
    have rest: "foldl processStep (Alive (y1, s1)) ps = Alive (x', s')"
      using Cons.prems(3) Alive result by simp
    have "\<And>q r s x s'. q \<in> set ps \<Longrightarrow> cacheAgrees e s \<Longrightarrow> q r s = Alive (x, s') \<Longrightarrow>
             cacheAgrees e s'"
      using Cons.prems(1) by (meson list.set_intros(2))
    from Cons.IH [OF this c1 rest] show ?thesis .
  qed
qed

lemma dispatched_cacheAgrees:
  assumes "p \<in> set (genericStatusProcessors e @ branchProcessors e basicInfo)"
    and "cacheAgrees e s" and "p r s = Alive (x, s')"
  shows "cacheAgrees e s'"
proof -
  have "cacheAgrees e s'" if "keySharesProcessor e r s = Alive (x, s')"
    using that assms(2)
    by (auto simp: keySharesProcessor_def split: outcome.splits if_splits)
  moreover have "cacheAgrees e s'" if "statusProcessor e r s = Alive (x, s')"
    using that keepStatusCompleted_cacheAgrees [OF assms(2), of e "rowKeep r"]
    by (cases "keepStatusCompleted e (rowKeep r) s")
       (auto simp: statusProcessor_def split: sum.splits if_splits)
  moreover have "cacheAgrees e s'" if "balanceProcessor e r s = Alive (x, s')"
    using that assms(2)
    by (auto simp: balanceProcessor_def split: sum.splits prod.splits if_splits)
  moreover have "cacheAgrees e s'" if "beneficiariesProcessor e r s = Alive (x, s')"
    using that beneficiariesAvailableAndSigned_cacheAgrees [OF assms(2), of "rowKeep r"]
    by (cases "beneficiariesAvailableAndSigned e (rowKeep r) s")
       (auto simp: beneficiariesProcessor_def split: sum.splits if_splits)
  moreover have "cacheAgrees e s'" if "splitProcessor r s = Alive (x, s')"
    using that assms(2)
    by (auto simp: splitProcessor_def split: sum.splits if_splits)
  ultimately show ?thesis
    using assms
    by (auto simp: genericStatusProcessors_def branchProcessors_def liquidationProcessors_def
          misfundProcessors_def split: if_splits)
qed

lemma processKeep_cacheAgrees:
  assumes "cacheAgrees e s" and "processKeep e keep s = Alive (x, s')"
  shows "cacheAgrees e s'"
proof -
  from processThrough_cases [of "[(''keep'', JStr keep)]" "genericStatusProcessors e" s]
  show ?thesis
  proof
    assume "\<exists>z. processThrough [(''keep'', JStr keep)] (genericStatusProcessors e) s = Died z"
    with assms(2) show ?thesis by (auto simp: processKeep_def)
  next
    assume "\<exists>basicInfo s1.
      processThrough [(''keep'', JStr keep)] (genericStatusProcessors e) s =
        Alive (Inr basicInfo, s1)"
    then obtain basicInfo s1
      where generic: "processThrough [(''keep'', JStr keep)] (genericStatusProcessors e) s =
        Alive (Inr basicInfo, s1)"
      by blast
    from processKeep_dispatched [OF generic] assms(2)
    have run: "foldl processStep (Alive (Inr [(''keep'', JStr keep)], s))
        (genericStatusProcessors e @ branchProcessors e basicInfo) = Alive (x, s')"
      by (simp add: processThrough_def)
    have "\<And>p r s x s'. p \<in> set (genericStatusProcessors e @ branchProcessors e basicInfo) \<Longrightarrow>
        cacheAgrees e s \<Longrightarrow> p r s = Alive (x, s') \<Longrightarrow> cacheAgrees e s'"
      by (rule dispatched_cacheAgrees)
    from this assms(1) run show ?thesis by (rule foldl_processStep_cacheAgrees)
  qed
qed

lemma runTasks_cacheAgrees:
  "cacheAgrees e s \<Longrightarrow> runTasks e keeps s = Alive (results, s') \<Longrightarrow> cacheAgrees e s'"
proof (induction keeps arbitrary: s results)
  case Nil
  then show ?case by simp
next
  case (Cons keep keeps)
  from Cons.prems(2) obtain result s1 rest
    where first: "processKeep e keep s = Alive (result, s1)"
      and others: "runTasks e keeps s1 = Alive (rest, s')"
    by (auto split: outcome.splits prod.splits)
  from Cons.prems(1) first have "cacheAgrees e s1" by (rule processKeep_cacheAgrees)
  from Cons.IH [OF this others] show ?case .
qed

lemma initialState_cacheAgrees: "cacheAgrees e initialState"
  by (simp add: cacheAgrees_def cachedBeneficiary_def initialState_def)

text \<open>
  The key shares of a keep are ready when its directory is a directory of three entries
  and the signer exits with code 0 having printed a tab, or more than one.
\<close>

lemma signDigest_resolves:
  "(\<exists>res. signDigest e keepAddress digest = Alive (Inr res)) \<longleftrightarrow>
   (\<exists>signal. childEnded (spawn e (orElse (keepEcdsaClientPath e) ''keep-ecdsa'')
       [''signing'', ''sign-digest'', digest,
        orElse (keyShareDirectory e) ''key-shares'' @ ''/'' @ keepAddress]) =
      ExitEvent (Some 0) signal) \<and>
   2 \<le> length (splitOn (CHR 0x09)
     (childStdout (spawn e (orElse (keepEcdsaClientPath e) ''keep-ecdsa'')
       [''signing'', ''sign-digest'', digest,
        orElse (keyShareDirectory e) ''key-shares'' @ ''/'' @ keepAddress])))"
proof -
  have two: "2 \<le> length xs \<longleftrightarrow> (\<exists>x y zs. xs = x # y # zs)" for xs :: "string list"
    by (cases xs; cases "tl xs") auto
  show ?thesis
    unfolding two
    by (auto simp: signDigest_def Let_def split: childEnd.splits list.splits)
qed

lemma keySharesReady_cases:
  "keySharesReady e keepAddress = Alive True \<longleftrightarrow>
   fs_stat e (orElse (keyShareDirectory e) ''key-shares'' @ ''/'' @ keepAddress) = Inr Directory \<and>
   (\<exists>names. fs_readdir e (orElse (keyShareDirectory e) ''key-shares'' @ ''/'' @ keepAddress) =
      Inr names \<and> length names = 3) \<and>
   (\<exists>res. signDigest e keepAddress ''deadbeef'' = Alive (Inr res))"
  by (auto simp: keySharesReady_def Let_def split: sum.splits outcome.splits)

lemma generic_stages_pass:
  assumes "keySharesReady e keep = Alive True"
    and "keepStatusCompleted e keep s = (Inr (Some ''terminated''), s1)"
    and "keepHoldsBtc e keep = Inr (bitcoinAddress, btcBalance)" and "0 < btcBalance"
  shows "processThrough [(''keep'', JStr keep)] (genericStatusProcessors e) s =
     Alive (Inr [(''keep'', JStr keep), (''status'', JStr ''terminated''),
           (''bitcoinAddress'', JStr bitcoinAddress), (''btcBalance'', JNum btcBalance)], s1)"
  using assms
  by (simp add: processThrough_def processStep_def genericStatusProcessors_def
      keySharesProcessor_def statusProcessor_def balanceProcessor_def rowKeep_def toString_def
      truthyStr_def truthy_def nullable_def spread_def)

lemma liquidation_stages_pass:
  assumes "beneficiariesAvailableAndSigned e keep s1 =
      (Inr [(''beneficiary1'', JStr d1), (''beneficiary2'', JStr d2), (''beneficiary3'', JStr d3)], s2)"
  shows "processThrough [(''keep'', JStr keep), (''status'', JStr ''terminated''),
           (''bitcoinAddress'', JStr bitcoinAddress), (''btcBalance'', JNum btcBalance)]
          (liquidationProcessors e) s1 =
     Alive (Inr [(''keep'', JStr keep), (''status'', JStr ''terminated''),
           (''bitcoinAddress'', JStr bitcoinAddress), (''btcBalance'', JNum btcBalance),
           (''beneficiary1'', JStr d1), (''beneficiary2'', JStr d2), (''beneficiary3'', JStr d3)], s2)"
  using assms by (simp add: pipeline_defs)

text \<open>
  Two attestations outside the conditions of \<open>beneficiaryAttestation\<close>, both signed by the
  beneficiary: the first has its \<^verbatim>\<open>address\<close> field in lower case while the signature
  recovers to the checksummed form; the message of the second names one extended public
  key, inside which the address pattern matches twice. Both are rejected.
\<close>

lemma attestation_outside_the_conditions:
  "fst (readBeneficiary
     ((sampleEnv ''0xBE'' 7)\<lparr>JSON_parse := \<lambda>contents.
        Inr \<lparr> msg = Some ''pay 1BoatSLRHtKNngkdXEeobR76b53LETtpyT'',
              sig = Some ''0x1b'', address = Some ''0xbe'' \<rparr>\<rparr>)
     ''0xA1'' initialState) =
     Inl ''Error: Recovered address does not match signing address for 0xA1.'' \<and>
   fst (readBeneficiary
     ((sampleEnv ''0xBE'' 7)\<lparr>JSON_parse := \<lambda>contents.
        Inr \<lparr> msg = Some ''xpub661MyMwAqRbcFtXgS5sYJABqqG9YLmC4Q1Rdap9gSE8NqtwybGhePY2gZ29ESFjqJoCu1Rupje8YtGqsefD265TMg7usUDFdp6W1EGMcet8'',
              sig = Some ''0x1b'', address = Some ''0xBE'' \<rparr>\<rparr>)
     ''0xA1'' initialState) =
     Inl (''Error: Beneficiary message for 0xA1 includes too many addresses: '' @
          ''1MyMwAqRbcFtXgS5sYJABqqG9YLmC4Q1Rd'' @ '','' @ ''1Rupje8YtGqsefD265TMg7usUDFdp6W1EG'')"
  by (simp add: attestation_defs orElse_def truthyStr_def sampleEnv_def initialState_def Let_def)

text \<open>
  C8, as stated, fails: in the sample world the keep \<open>0xK1\<close> is terminated, holds 7,
  has its key shares, and each of its three signers has an attestation signed by the
  beneficiary. \<^verbatim>\<open>buildAndBroadcastLiquidationSplit\<close> resolves to the empty object, so
  the terminal row has the three beneficiaries and no field for a transaction.
\<close>

theorem liquidation_row_has_no_transaction_field:
  "keySharesReady (sampleEnv ''0xBE'' 7) ''0xK1'' = Alive True \<and>
   fst (keepStatusCompleted (sampleEnv ''0xBE'' 7) ''0xK1'' initialState) = Inr (Some ''terminated'') \<and>
   keepHoldsBtc (sampleEnv ''0xBE'' 7) ''0xK1'' = Inr (''bc1q04ab'', 7) \<and>
   keep_getMembers (sampleEnv ''0xBE'' 7) ''0xK1'' = Inr (''0xA1'', ''0xA2'', ''0xA3'') \<and>
   beneficiaryAttestation (sampleEnv ''0xBE'' 7) ''0xA1'' \<and>
   beneficiaryAttestation (sampleEnv ''0xBE'' 7) ''0xA2'' \<and>
   beneficiaryAttestation (sampleEnv ''0xBE'' 7) ''0xA3'' \<and>
   buildAndBroadcastLiquidationSplit
     [(''keep'', JStr ''0xK1''), (''status'', JStr ''terminated''),
      (''bitcoinAddress'', JStr ''bc1q04ab''), (''btcBalance'', JNum 7),
      (''beneficiary1'', JStr ''1BoatSLRHtKNngkdXEeobR76b53LETtpyT''),
      (''beneficiary2'', JStr ''1BoatSLRHtKNngkdXEeobR76b53LETtpyT''),
      (''beneficiary3'', JStr ''1BoatSLRHtKNngkdXEeobR76b53LETtpyT'')] = Inr [] \<and>
   map_outcome fst (processKeep (sampleEnv ''0xBE'' 7) ''0xK1'' initialState) =
     Alive (Inr [(''keep'', JStr ''0xK1''), (''status'', JStr ''terminated''),
          (''bitcoinAddress'', JStr ''bc1q04ab''), (''btcBalance'', JNum 7),
          (''beneficiary1'', JStr ''1BoatSLRHtKNngkdXEeobR76b53LETtpyT''),
          (''beneficiary2'', JStr ''1BoatSLRHtKNngkdXEeobR76b53LETtpyT''),
          (''beneficiary3'', JStr ''1BoatSLRHtKNngkdXEeobR76b53LETtpyT'')])"
  by (simp add: processKeep_def pipeline_defs attestation_defs beneficiaryAttestation_def
      sampleEnv_def initialState_def)

text \<open>
  C8, amended: take a keep
  \<^item> whose status resolves to terminated and whose balance is positive;
  \<^item> whose key shares are ready: its directory is a directory of three entries and the
    signer exits with code 0 having printed a tab;
  \<^item> whose three signers each have an attestation file that can be read and parses, with
    \<^verbatim>\<open>msg\<close>, \<^verbatim>\<open>sig\<close> and \<^verbatim>\<open>address\<close> not empty, whose signature recovers to the
    \<^verbatim>\<open>address\<close> field character for character, whose \<^verbatim>\<open>address\<close> field is the
    beneficiary address of the signer up to letter case, and whose message has exactly
    one match of the address pattern, or none and exactly one match of the extended key
    pattern;
  \<^item> in a run whose cache of beneficiaries holds what the chain client answers.

  Then the process lives and the terminal row of the keep has no \<^verbatim>\<open>error\<close> field and
  is made of the fields \<^verbatim>\<open>keep\<close>, \<^verbatim>\<open>status\<close>, \<^verbatim>\<open>bitcoinAddress\<close>,
  \<^verbatim>\<open>btcBalance\<close>, \<^verbatim>\<open>beneficiary1\<close>, \<^verbatim>\<open>beneficiary2\<close> and \<^verbatim>\<open>beneficiary3\<close>,
  each beneficiary a non-empty string, and of no other field: there is no field for a
  transaction. Nothing is claimed of an attestation outside these conditions; one whose
  \<^verbatim>\<open>address\<close> is the recovered address in another letter case, or whose message holds
  two matches of the address pattern, as an extended key may, gives a row with an
  \<^verbatim>\<open>error\<close>.
\<close>

theorem liquidation_row:
  assumes "cacheAgrees e s"
    and "keySharesReady e keep = Alive True"
    and "fst (keepStatusCompleted e keep s) = Inr (Some ''terminated'')"
    and "keepHoldsBtc e keep = Inr (bitcoinAddress, btcBalance)" and "0 < btcBalance"
    and "keep_getMembers e keep = Inr (o1, o2, o3)"
    and "beneficiaryAttestation e o1" and "beneficiaryAttestation e o2"
    and "beneficiaryAttestation e o3"
  shows "\<exists>d1 d2 d3. d1 \<noteq> [] \<and> d2 \<noteq> [] \<and> d3 \<noteq> [] \<and>
     map_outcome fst (processKeep e keep s) =
       Alive (Inr [(''keep'', JStr keep), (''status'', JStr ''terminated''),
            (''bitcoinAddress'', JStr bitcoinAddress), (''btcBalance'', JNum btcBalance),
            (''beneficiary1'', JStr d1), (''beneficiary2'', JStr d2), (''beneficiary3'', JStr d3)])"
proof -
  obtain s1 where status: "keepStatusCompleted e keep s = (Inr (Some ''terminated''), s1)"
    using assms(3) by (cases "keepStatusCompleted e keep s") simp
  with keepStatusCompleted_cacheAgrees [OF assms(1), of e keep] have c1: "cacheAgrees e s1"
    by simp
  let ?basic = "[(''keep'', JStr keep), (''status'', JStr ''terminated''),
           (''bitcoinAddress'', JStr bitcoinAddress), (''btcBalance'', JNum btcBalance)]"
  have generic: "processThrough [(''keep'', JStr keep)] (genericStatusProcessors e) s =
      Alive (Inr ?basic, s1)"
    using assms(2) status assms(4,5) by (rule generic_stages_pass)
  obtain d1 s2 where r1: "readBeneficiary e o1 s1 = (Inr (Some d1), s2)"
      and n1: "d1 \<noteq> []" and c2: "cacheAgrees e s2"
    using readBeneficiary_signed [OF c1 assms(7)] by blast
  obtain d2 s3 where r2: "readBeneficiary e o2 s2 = (Inr (Some d2), s3)"
      and n2: "d2 \<noteq> []" and c3: "cacheAgrees e s3"
    using readBeneficiary_signed [OF c2 assms(8)] by blast
  obtain d3 s4 where r3: "readBeneficiary e o3 s3 = (Inr (Some d3), s4)" and n3: "d3 \<noteq> []"
    using readBeneficiary_signed [OF c3 assms(9)] by blast
  have "beneficiariesAvailableAndSigned e keep s1 =
      (Inr [(''beneficiary1'', JStr d1), (''beneficiary2'', JStr d2), (''beneficiary3'', JStr d3)], s4)"
    using assms(6) r1 r2 r3 by (simp add: beneficiariesAvailableAndSigned_def nullable_def)
  then have "processThrough ?basic (liquidationProcessors e) s1 =
     Alive (Inr [(''keep'', JStr keep), (''status'', JStr ''terminated''),
           (''bitcoinAddress'', JStr bitcoinAddress), (''btcBalance'', JNum btcBalance),
           (''beneficiary1'', JStr d1), (''beneficiary2'', JStr d2), (''beneficiary3'', JStr d3)], s4)"
    by (rule liquidation_stages_pass)
  with generic have "map_outcome fst (processKeep e keep s) =
       Alive (Inr [(''keep'', JStr keep), (''status'', JStr ''terminated''),
            (''bitcoinAddress'', JStr bitcoinAddress), (''btcBalance'', JNum btcBalance),
            (''beneficiary1'', JStr d1), (''beneficiary2'', JStr d2), (''beneficiary3'', JStr d3)])"
    by (simp add: processKeep_def)
  with n1 n2 n3 show ?thesis by blast
qed

theorem liquidation_row_witness:
  "cacheAgrees (sampleEnv ''0xBE'' 21) initialState \<and>
   keySharesReady (sampleEnv ''0xBE'' 21) ''0xK1'' = Alive True \<and>
   fst (keepStatusCompleted (sampleEnv ''0xBE'' 21) ''0xK1'' initialState) = Inr (Some ''terminated'') \<and>
   keepHoldsBtc (sampleEnv ''0xBE'' 21) ''0xK1'' = Inr (''bc1q04ab'', 21) \<and>
   keep_getMembers (sampleEnv ''0xBE'' 21) ''0xK1'' = Inr (''0xA1'', ''0xA2'', ''0xA3'') \<and>
   beneficiaryAttestation (sampleEnv ''0xBE'' 21) ''0xA1'' \<and>
   beneficiaryAttestation (sampleEnv ''0xBE'' 21) ''0xA2'' \<and>
   beneficiaryAttestation (sampleEnv ''0xBE'' 21) ''0xA3'' \<and>
   (\<exists>d1 d2 d3. d1 \<noteq> [] \<and> d2 \<noteq> [] \<and> d3 \<noteq> [] \<and>
      map_outcome fst (processKeep (sampleEnv ''0xBE'' 21) ''0xK1'' initialState) =
        Alive (Inr [(''keep'', JStr ''0xK1''), (''status'', JStr ''terminated''),
             (''bitcoinAddress'', JStr ''bc1q04ab''), (''btcBalance'', JNum 21),
             (''beneficiary1'', JStr d1), (''beneficiary2'', JStr d2), (''beneficiary3'', JStr d3)]))"
proof -
  let ?e = "sampleEnv ''0xBE'' 21"
  have h1: "cacheAgrees ?e initialState"
    by (simp add: cacheAgrees_def cachedBeneficiary_def initialState_def)
  have h2: "keySharesReady ?e ''0xK1'' = Alive True"
    by (simp add: keySharesReady_def signDigest_def orElse_def truthyStr_def sampleEnv_def Let_def)
  have h3: "fst (keepStatusCompleted ?e ''0xK1'' initialState) = Inr (Some ''terminated'')"
    by (simp add: keepStatusCompleted_def referenceBlock_def sampleEnv_def initialState_def)
  have h4: "keepHoldsBtc ?e ''0xK1'' = Inr (''bc1q04ab'', 21)"
    by (simp add: keepHoldsBtc_def sampleEnv_def)
  have h5: "(0::int) < 21" by simp
  have h6: "keep_getMembers ?e ''0xK1'' = Inr (''0xA1'', ''0xA2'', ''0xA3'')"
    by (simp add: sampleEnv_def)
  have h7: "beneficiaryAttestation ?e ''0xA1''" and h8: "beneficiaryAttestation ?e ''0xA2''"
    and h9: "beneficiaryAttestation ?e ''0xA3''"
    by (simp_all add: beneficiaryAttestation_def attestation_defs orElse_def truthyStr_def sampleEnv_def)
  from liquidation_row [OF h1 h2 h3 h4 h5 h6 h7 h8 h9] h1 h2 h3 h4 h6 h7 h8 h9
  show ?thesis by blast
qed

end
